theory Spec2Isabelle
  imports Complex_Main "HOL-Library.Log_Nat" "HOL-Library.Monad_Syntax"
begin

section \<open>Data model\<close>

text \<open>
  The inventory core of the repository lives in two Express routers: the dealer-request
  router (create request, upload receipt, verify or reject payment, approve, cancel) and the
  stock-allocation router (allocate stock to a salesman). Both work on Mongoose models:
  \<^item> \<open>Product\<close> (models/Product.js): the central stock counter \<open>stock\<close>;
  \<^item> \<open>DealerRequest\<close> (models/DealerRequest.js): the request and its two status fields;
  \<^item> \<open>DealerStock\<close> (models/DealerStock.js): one lot per approved request;
  \<^item> \<open>StockAllocation\<close> (models/StockAllocation.js): units pushed from a lot to a salesman.

  An ObjectId is a natural number and a date is a natural number (milliseconds).
\<close>

type_synonym oid = nat
type_synonym date = nat

subsection \<open>JavaScript numbers\<close>

text \<open>
  A JavaScript Number is an IEEE 754 double. A finite double is a rational of the form
  \<open>m * 2 ^ e\<close> with \<open>\<bar>m\<bar> < 2 ^ 53\<close>, so a Number is a \<open>rat\<close>, and \<open>+\<close> and \<open>-\<close> give the
  exact result rounded to the nearest double, ties to the even mantissa: \<open>fl\<close>. Comparisons
  and \<open>Math.min\<close> are exact. The handlers add and subtract doubles only, and such a result
  is never subnormal unless it is exact, so the exponent needs no lower bound; overflow to
  Infinity (magnitudes from \<open>2 ^ 1024\<close> on) and NaN are not modelled.

  \<open>ilog2 x\<close> is the exponent \<open>e\<close> with \<open>2 ^ e \<le> x < 2 ^ (e + 1)\<close>, for \<open>0 < x\<close>.
\<close>

definition ilog2 :: "rat \<Rightarrow> int" where
  "ilog2 x = (if 1 \<le> x then bitlen \<lfloor>x\<rfloor> - 1 else - bitlen (\<lceil>1 / x\<rceil> - 1))"

definition round_even :: "rat \<Rightarrow> int" where
  "round_even r =
     (if r - of_int \<lfloor>r\<rfloor> < 1 / 2 then \<lfloor>r\<rfloor>
      else if 1 / 2 < r - of_int \<lfloor>r\<rfloor> then \<lfloor>r\<rfloor> + 1
      else if even \<lfloor>r\<rfloor> then \<lfloor>r\<rfloor> else \<lfloor>r\<rfloor> + 1)"

definition fl :: "rat \<Rightarrow> rat" where
  "fl x =
     (if x = 0 then 0
      else sgn x * (of_int (round_even (\<bar>x\<bar> / 2 powi (ilog2 \<bar>x\<bar> - 52)))
                      * 2 powi (ilog2 \<bar>x\<bar> - 52)))"

definition fadd :: "rat \<Rightarrow> rat \<Rightarrow> rat" where
  "fadd x y = fl (x + y)"

definition fsub :: "rat \<Rightarrow> rat \<Rightarrow> rat" where
  "fsub x y = fl (x - y)"

definition is_double :: "rat \<Rightarrow> bool" where
  "is_double x = (fl x = x)"

text \<open>
  A whole number on which the doubles are exact: an integer from 0 to \<open>2 ^ 53\<close>.
\<close>

definition whole :: "rat \<Rightarrow> bool" where
  "whole x = (of_int \<lfloor>x\<rfloor> = x \<and> 0 \<le> x \<and> x \<le> 2 ^ 53)"

datatype status = Pending | Approved | Cancelled

datatype paymentStatus = PaymentPending | Paid | Verified | Rejected

text \<open>
  The responses of the handlers. Each \<open>return res.status(...)\<close> of the source is one of
  these: 400 for a missing or ill-typed input is \<open>ValidationError\<close>, 404 is
  \<open>NotFoundError\<close>, 403 is \<open>AccessDenied\<close>, 400 for a request in the wrong
  \<open>status\<close> or \<open>paymentStatus\<close> is \<open>StateError\<close>, 400 with an "Insufficient stock"
  message is \<open>InsufficientStockError\<close> (carrying the number of available strips when the
  message reports one), and the 500 of the \<open>catch\<close> block, which every thrown exception
  reaches, is \<open>ServerError\<close>.
\<close>

datatype error =
    ValidationError
  | NotFoundError
  | AccessDenied
  | StateError
  | InsufficientStockError "rat option"
  | ServerError

text \<open>
  An identifier as it arrives in \<open>req.params\<close> or \<open>req.body\<close>: absent (falsy), present
  but refused by \<open>mongoose.Types.ObjectId.isValid\<close>, or a valid ObjectId.
\<close>

datatype id_input = Missing | Malformed | Oid oid

text \<open>
  A value of the JSON request body, as far as \<open>typeof\<close> and truthiness see it. The body
  parser has run: the number of \<open>JNum\<close> is the double that the literal was read as
  (\<open>parsed\<close>). A literal beyond the largest double is read as Infinity and is outside the
  type.
\<close>

datatype json = JUndefined | JNull | JBool bool | JNum rat | JStr string | JObject

fun parsed :: "json \<Rightarrow> bool" where
  "parsed (JNum n) = is_double n"
| "parsed v = True"

fun truthy :: "json \<Rightarrow> bool" where
  "truthy JUndefined = False"
| "truthy JNull = False"
| "truthy (JBool b) = b"
| "truthy (JNum n) = (n \<noteq> 0)"
| "truthy (JStr s) = (s \<noteq> [])"
| "truthy JObject = True"

text \<open>
  The receipt of an upload request: no file (multer left \<open>req.file\<close> undefined), a file
  that the image store refused (the upload throws), or the stored image, with the URL that
  the image store returned.
\<close>

datatype upload = NoFile | UploadFailed | Uploaded string

record Product =
  p_id :: oid
  p_stock :: rat

record DealerRequest =
  r_id :: oid
  r_dealer :: oid
  r_product :: oid
  r_strips :: rat
  r_status :: status
  r_paymentStatus :: paymentStatus
  r_receiptImage :: "string option"
  r_paymentVerifiedBy :: "oid option"
  r_paymentVerifiedAt :: "date option"
  r_paymentNotes :: string
  r_requestedAt :: date
  r_processedBy :: "oid option"
  r_processedAt :: "date option"
  r_notes :: string

record DealerStock =
  ds_id :: oid
  ds_dealer :: oid
  ds_product :: oid
  ds_totalStrips :: rat
  ds_allocatedStrips :: rat
  ds_availableStrips :: rat
  ds_sourceRequest :: oid
  ds_createdAt :: date

record StockAllocation =
  sa_id :: oid
  sa_dealer :: oid
  sa_salesman :: oid
  sa_product :: oid
  sa_strips :: rat
  sa_dealerStock :: oid
  sa_notes :: string
  sa_createdAt :: date

text \<open>
  models/User.js is not among the sources; the record holds the three fields that the
  allocation router's query reads.
\<close>

record User =
  u_id :: oid
  u_role :: string
  u_createdBy :: "oid option"

text \<open>
  The database: one list of documents per collection, in insertion order, and the supply of
  unused ObjectIds (\<open>new Model(...)\<close> takes \<open>nextId\<close>; storing the document consumes it).
\<close>

record db =
  products :: "Product list"
  requests :: "DealerRequest list"
  dealerStocks :: "DealerStock list"
  allocations :: "StockAllocation list"
  users :: "User list"
  nextId :: oid

section \<open>Mongoose: queries, validation and save\<close>

definition findById :: "('a \<Rightarrow> oid) \<Rightarrow> oid \<Rightarrow> 'a list \<Rightarrow> 'a option" where
  "findById key i docs = find (\<lambda>d. key d = i) docs"

text \<open>\<open>save()\<close> of a fetched document writes it back under its \<open>_id\<close>.\<close>

definition replaceById :: "('a \<Rightarrow> oid) \<Rightarrow> 'a \<Rightarrow> 'a list \<Rightarrow> 'a list" where
  "replaceById key x docs = map (\<lambda>d. if key d = key x then x else d) docs"

text \<open>
  The \<open>trim: true\<close> setter of the String paths, \<open>String.prototype.trim\<close>. A string is a
  list of code units below 256; of these, trim strips tab, line feed, vertical tab, form
  feed, carriage return, space and the no-break space U+00A0. The white space beyond U+00FF
  (U+1680, U+2000 to U+200A, U+2028, U+2029, U+202F, U+205F, U+3000, U+FEFF) is outside the
  type.
\<close>

definition is_space :: "char \<Rightarrow> bool" where
  "is_space c =
     (c \<in> set [CHR 0x20, CHR 0x09, CHR 0x0A, CHR 0x0B, CHR 0x0C, CHR 0x0D, CHR 0xA0])"

definition js_trim :: "string \<Rightarrow> string" where
  "js_trim s = rev (dropWhile is_space (rev (dropWhile is_space s)))"

text \<open>\<open>x || dflt\<close> on an optional string: the empty string is falsy too.\<close>

definition or_default :: "string option \<Rightarrow> string \<Rightarrow> string" where
  "or_default x dflt = (case x of None \<Rightarrow> dflt | Some s \<Rightarrow> if s = [] then dflt else s)"

text \<open>
  Mongoose validates a document before the \<open>pre('save')\<close> hooks run, and a failed validator
  or a hook that passes an error makes \<open>save()\<close> throw with nothing written. The thrown
  error reaches the handler's \<open>catch\<close>, hence \<open>ServerError\<close>.

  Product: \<open>stock\<close> has \<open>min: 0\<close>. The other paths of a product are never written by
  these handlers.
\<close>

definition save_product :: "Product \<Rightarrow> db \<Rightarrow> error + db" where
  "save_product p d =
     (if p_stock p < 0 then Inl ServerError
      else Inr (d\<lparr>products := replaceById p_id p (products d)\<rparr>))"

text \<open>DealerRequest: \<open>strips\<close> is required with \<open>min: 1\<close>.\<close>

definition insert_request :: "DealerRequest \<Rightarrow> db \<Rightarrow> error + db" where
  "insert_request r d =
     (if r_strips r < 1 then Inl ServerError
      else Inr (d\<lparr>requests := requests d @ [r], nextId := nextId d + 1\<rparr>))"

definition save_request :: "DealerRequest \<Rightarrow> db \<Rightarrow> error + db" where
  "save_request r d =
     (if r_strips r < 1 then Inl ServerError
      else Inr (d\<lparr>requests := replaceById r_id r (requests d)\<rparr>))"

text \<open>
  DealerStock: the three counters are required with \<open>min: 0\<close>; then the
  \<open>pre('save')\<close> hook recomputes \<open>availableStrips\<close> and refuses a negative result.
\<close>

definition presave_stock :: "DealerStock \<Rightarrow> error + DealerStock" where
  "presave_stock s =
     (if ds_totalStrips s < 0 \<or> ds_allocatedStrips s < 0 \<or> ds_availableStrips s < 0
      then Inl ServerError
      else (let s' = s\<lparr>ds_availableStrips := fsub (ds_totalStrips s) (ds_allocatedStrips s)\<rparr>
            in if ds_availableStrips s' < 0 then Inl ServerError else Inr s'))"

definition insert_stock :: "DealerStock \<Rightarrow> db \<Rightarrow> error + db" where
  "insert_stock s d =
     (case presave_stock s of
        Inl e \<Rightarrow> Inl e
      | Inr s' \<Rightarrow> Inr (d\<lparr>dealerStocks := dealerStocks d @ [s'], nextId := nextId d + 1\<rparr>))"

definition save_stock :: "DealerStock \<Rightarrow> db \<Rightarrow> error + db" where
  "save_stock s d =
     (case presave_stock s of
        Inl e \<Rightarrow> Inl e
      | Inr s' \<Rightarrow> Inr (d\<lparr>dealerStocks := replaceById ds_id s' (dealerStocks d)\<rparr>))"

text \<open>StockAllocation: \<open>strips\<close> is required with \<open>min: 1\<close>.\<close>

definition insert_allocation :: "StockAllocation \<Rightarrow> db \<Rightarrow> error + db" where
  "insert_allocation a d =
     (if sa_strips a < 1 then Inl ServerError
      else Inr (d\<lparr>allocations := allocations d @ [a], nextId := nextId d + 1\<rparr>))"

text \<open>\<open>StockAllocation.deleteMany({ _id: { $in: ids } })\<close>.\<close>

definition deleteMany :: "oid list \<Rightarrow> db \<Rightarrow> db" where
  "deleteMany ids d = d\<lparr>allocations := filter (\<lambda>a. sa_id a \<notin> set ids) (allocations d)\<rparr>"

text \<open>
  \<open>DealerStock.find({ dealer, product }).sort({ createdAt: 1 })\<close>: the matching lots,
  oldest first (lots of equal creation time stay in insertion order).
\<close>

definition findStocks :: "oid \<Rightarrow> oid \<Rightarrow> db \<Rightarrow> DealerStock list" where
  "findStocks dealer product d =
     sort_key ds_createdAt
       (filter (\<lambda>s. ds_dealer s = dealer \<and> ds_product s = product) (dealerStocks d))"

section \<open>The dealer-request router\<close>

text \<open>
  Every handler is modelled after its middleware (\<open>verifyToken\<close>, then \<open>verifyAdmin\<close> or
  \<open>verifyDealer\<close>) has let the call through: \<open>caller\<close> is \<open>req.user._id\<close>. A handler
  returns its response together with the database it leaves behind.

  \<open>router.post('/')\<close>: create a request.
\<close>

definition createRequest ::
  "oid \<Rightarrow> id_input \<Rightarrow> json \<Rightarrow> date \<Rightarrow> db \<Rightarrow> (error + DealerRequest) \<times> db" where
  "createRequest caller productId strips now d =
     (if productId = Missing \<or> \<not> truthy strips then (Inl ValidationError, d)
      else case strips of
        JNum n \<Rightarrow>
          if n < 1 then (Inl ValidationError, d)
          else (case productId of
            Oid pid \<Rightarrow>
              (case findById p_id pid (products d) of
                 None \<Rightarrow> (Inl NotFoundError, d)
               | Some product \<Rightarrow>
                   if p_stock product < n
                   then (Inl (InsufficientStockError (Some (p_stock product))), d)
                   else (let request =
                           \<lparr>r_id = nextId d, r_dealer = caller, r_product = pid, r_strips = n,
                            r_status = Pending, r_paymentStatus = PaymentPending,
                            r_receiptImage = None, r_paymentVerifiedBy = None,
                            r_paymentVerifiedAt = None, r_paymentNotes = [],
                            r_requestedAt = now, r_processedBy = None, r_processedAt = None,
                            r_notes = []\<rparr>
                         in case insert_request request d of
                              Inl e \<Rightarrow> (Inl e, d)
                            | Inr d' \<Rightarrow> (Inr request, d')))
          | _ \<Rightarrow> (Inl ServerError, d))
      | _ \<Rightarrow> (Inl ValidationError, d))"

text \<open>\<open>router.put('/:id/upload-receipt')\<close>.\<close>

definition uploadReceipt ::
  "oid \<Rightarrow> id_input \<Rightarrow> upload \<Rightarrow> db \<Rightarrow> (error + DealerRequest) \<times> db" where
  "uploadReceipt caller rid file d =
     (case rid of
        Oid i \<Rightarrow>
          (case findById r_id i (requests d) of
             None \<Rightarrow> (Inl NotFoundError, d)
           | Some request \<Rightarrow>
               if r_dealer request \<noteq> caller then (Inl AccessDenied, d)
               else if r_status request \<noteq> Pending then (Inl StateError, d)
               else (case file of
                  NoFile \<Rightarrow> (Inl ValidationError, d)
                | UploadFailed \<Rightarrow> (Inl ServerError, d)
                | Uploaded url \<Rightarrow>
                    (let request' = request\<lparr>r_receiptImage := Some (js_trim url),
                                             r_paymentStatus := Paid\<rparr>
                     in case save_request request' d of
                          Inl e \<Rightarrow> (Inl e, d)
                        | Inr d' \<Rightarrow> (Inr request', d'))))
      | _ \<Rightarrow> (Inl ValidationError, d))"

text \<open>\<open>router.put('/:id/verify-payment')\<close>.\<close>

definition verifyPayment ::
  "oid \<Rightarrow> id_input \<Rightarrow> string option \<Rightarrow> date \<Rightarrow> db \<Rightarrow> (error + DealerRequest) \<times> db" where
  "verifyPayment caller rid notes now d =
     (case rid of
        Oid i \<Rightarrow>
          (case findById r_id i (requests d) of
             None \<Rightarrow> (Inl NotFoundError, d)
           | Some request \<Rightarrow>
               if r_paymentStatus request \<noteq> Paid then (Inl StateError, d)
               else (let request' = request\<lparr>r_paymentStatus := Verified,
                                              r_paymentVerifiedBy := Some caller,
                                              r_paymentVerifiedAt := Some now,
                                              r_paymentNotes := js_trim (or_default notes [])\<rparr>
                     in case save_request request' d of
                          Inl e \<Rightarrow> (Inl e, d)
                        | Inr d' \<Rightarrow> (Inr request', d')))
      | _ \<Rightarrow> (Inl ValidationError, d))"

text \<open>\<open>router.put('/:id/reject-payment')\<close>.\<close>

definition rejectPayment ::
  "oid \<Rightarrow> id_input \<Rightarrow> string option \<Rightarrow> date \<Rightarrow> db \<Rightarrow> (error + DealerRequest) \<times> db" where
  "rejectPayment caller rid notes now d =
     (case rid of
        Oid i \<Rightarrow>
          (case findById r_id i (requests d) of
             None \<Rightarrow> (Inl NotFoundError, d)
           | Some request \<Rightarrow>
               if r_paymentStatus request \<noteq> Paid then (Inl StateError, d)
               else (let request' = request\<lparr>r_paymentStatus := Rejected,
                         r_paymentVerifiedBy := Some caller,
                         r_paymentVerifiedAt := Some now,
                         r_paymentNotes := js_trim (or_default notes
                            ''Receipt rejected. Please upload a valid receipt.''),
                         r_receiptImage := None\<rparr>
                     in case save_request request' d of
                          Inl e \<Rightarrow> (Inl e, d)
                        | Inr d' \<Rightarrow> (Inr request', d')))
      | _ \<Rightarrow> (Inl ValidationError, d))"

text \<open>
  \<open>router.put('/:id/approve')\<close>. The handler reads the request once, with its product
  populated (a request whose product is gone has \<open>request.product = null\<close>, and reading
  its stock throws), and from then on checks and changes the documents it holds in memory,
  saving them one by one; it never reads the request or the product again. Every \<open>await\<close>
  of the handler hands control to whatever other request is being served, so the handler
  is modelled by the steps between its awaits:

  \<^item> \<open>approve_fetch\<close>: the identifier check and the read of the request;
  \<^item> \<open>approve_deduct\<close>: the checks of status, payment status and central stock on the
    documents read, the deduction and the save of the product;
  \<^item> \<open>approve_mark\<close>: the request marked approved and saved;
  \<^item> \<open>findDealerStock\<close>: the search for a lot of this dealer, product and source
    request;
  \<^item> \<open>saveDealerStock\<close>: the strips added to the lot found, or a new lot created.

  \<open>approve\<close> is one call served alone: the steps in their order, each on the database
  the step before left. When two calls are served at once the steps of one fall between
  the steps of the other, and each call goes on with the documents it read itself.
\<close>

definition approve_fetch :: "id_input \<Rightarrow> db \<Rightarrow> error + DealerRequest \<times> Product option" where
  "approve_fetch rid d =
     (case rid of
        Oid i \<Rightarrow>
          (case findById r_id i (requests d) of
             None \<Rightarrow> Inl NotFoundError
           | Some request \<Rightarrow> Inr (request, findById p_id (r_product request) (products d)))
      | _ \<Rightarrow> Inl ValidationError)"

definition approve_deduct :: "DealerRequest \<times> Product option \<Rightarrow> db \<Rightarrow> error + Product \<times> db" where
  "approve_deduct fetched d =
     (case fetched of
        (request, populated) \<Rightarrow>
          if r_status request \<noteq> Pending then Inl StateError
          else if r_paymentStatus request \<noteq> Verified then Inl StateError
          else (case populated of
             None \<Rightarrow> Inl ServerError
           | Some product \<Rightarrow>
               if p_stock product < r_strips request
               then Inl (InsufficientStockError None)
               else (let product' = product\<lparr>p_stock := fsub (p_stock product) (r_strips request)\<rparr>
                     in case save_product product' d of
                          Inl e \<Rightarrow> Inl e
                        | Inr d1 \<Rightarrow> Inr (product', d1))))"

definition approve_mark ::
  "oid \<Rightarrow> DealerRequest \<Rightarrow> string option \<Rightarrow> date \<Rightarrow> db \<Rightarrow> error + DealerRequest \<times> db" where
  "approve_mark caller request notes now d =
     (let request' = request\<lparr>r_status := Approved,
                              r_processedBy := Some caller,
                              r_processedAt := Some now,
                              r_notes := js_trim (or_default notes [])\<rparr>
      in case save_request request' d of
           Inl e \<Rightarrow> Inl e
         | Inr d2 \<Rightarrow> Inr (request', d2))"

definition findDealerStock :: "DealerRequest \<Rightarrow> oid \<Rightarrow> db \<Rightarrow> DealerStock option" where
  "findDealerStock request productId d =
     find (\<lambda>s. ds_dealer s = r_dealer request \<and> ds_product s = productId
                  \<and> ds_sourceRequest s = r_id request) (dealerStocks d)"

definition saveDealerStock ::
  "DealerRequest \<Rightarrow> oid \<Rightarrow> date \<Rightarrow> DealerStock option \<Rightarrow> db \<Rightarrow> error + db" where
  "saveDealerStock request productId now found d =
     (case found of
        Some dealerStock \<Rightarrow>
          save_stock
            (dealerStock\<lparr>ds_totalStrips := fadd (ds_totalStrips dealerStock) (r_strips request),
                          ds_availableStrips :=
                            fsub (fadd (ds_totalStrips dealerStock) (r_strips request))
                                 (ds_allocatedStrips dealerStock)\<rparr>) d
      | None \<Rightarrow>
          insert_stock
            \<lparr>ds_id = nextId d, ds_dealer = r_dealer request, ds_product = productId,
             ds_totalStrips = r_strips request, ds_allocatedStrips = 0,
             ds_availableStrips = r_strips request, ds_sourceRequest = r_id request,
             ds_createdAt = now\<rparr> d)"

text \<open>
  "Create or update dealer stock" when nothing falls between the search and the save.
\<close>

definition createOrUpdateDealerStock :: "DealerRequest \<Rightarrow> oid \<Rightarrow> date \<Rightarrow> db \<Rightarrow> error + db" where
  "createOrUpdateDealerStock request productId now d =
     saveDealerStock request productId now (findDealerStock request productId d) d"

text \<open>
  \<open>approve_run\<close>: everything after the read, served alone. A failed save throws, the
  \<open>catch\<close> answers 500, and what was saved before stays saved.
\<close>

definition approve_run ::
  "oid \<Rightarrow> DealerRequest \<times> Product option \<Rightarrow> string option \<Rightarrow> date \<Rightarrow> db
     \<Rightarrow> (error + DealerRequest) \<times> db" where
  "approve_run caller fetched notes now d =
     (case approve_deduct fetched d of
        Inl e \<Rightarrow> (Inl e, d)
      | Inr (product, d1) \<Rightarrow>
          (case approve_mark caller (fst fetched) notes now d1 of
             Inl e \<Rightarrow> (Inl e, d1)
           | Inr (request', d2) \<Rightarrow>
               (case createOrUpdateDealerStock request' (p_id product) now d2 of
                  Inl e \<Rightarrow> (Inl e, d2)
                | Inr d3 \<Rightarrow> (Inr request', d3))))"

definition approve ::
  "oid \<Rightarrow> id_input \<Rightarrow> string option \<Rightarrow> date \<Rightarrow> db \<Rightarrow> (error + DealerRequest) \<times> db" where
  "approve caller rid notes now d =
     (case approve_fetch rid d of
        Inl e \<Rightarrow> (Inl e, d)
      | Inr fetched \<Rightarrow> approve_run caller fetched notes now d)"

text \<open>
  Two approve calls served at once, in the order the event loop gives them when every
  database operation takes the same time: each step of the first call is followed by the
  same step of the second, and both searches for a lot are answered before either lot is
  saved. \<open>answered\<close> keeps the result of a step that went through; the schedule is \<open>None\<close>
  when a step of either call fails, and otherwise both calls answer 200 with the request
  they hold.
\<close>

definition answered :: "error + 'a \<Rightarrow> 'a option" where
  "answered x = (case x of Inl e \<Rightarrow> None | Inr v \<Rightarrow> Some v)"

definition approve_overlapped ::
  "oid \<Rightarrow> oid \<Rightarrow> id_input \<Rightarrow> date \<Rightarrow> date \<Rightarrow> db
     \<Rightarrow> (DealerRequest \<times> DealerRequest \<times> db) option" where
  "approve_overlapped callerA callerB rid nowA nowB d = do {
     fetchedA \<leftarrow> answered (approve_fetch rid d);
     fetchedB \<leftarrow> answered (approve_fetch rid d);
     (productA, d1) \<leftarrow> answered (approve_deduct fetchedA d);
     (productB, d2) \<leftarrow> answered (approve_deduct fetchedB d1);
     (requestA, d3) \<leftarrow> answered (approve_mark callerA (fst fetchedA) None nowA d2);
     (requestB, d4) \<leftarrow> answered (approve_mark callerB (fst fetchedB) None nowB d3);
     d5 \<leftarrow> answered (saveDealerStock requestA (p_id productA) nowA
                       (findDealerStock requestA (p_id productA) d4) d4);
     d6 \<leftarrow> answered (saveDealerStock requestB (p_id productB) nowB
                       (findDealerStock requestB (p_id productB) d4) d5);
     Some (requestA, requestB, d6)
   }"

text \<open>\<open>router.put('/:id/cancel')\<close>.\<close>

definition cancel ::
  "oid \<Rightarrow> id_input \<Rightarrow> string option \<Rightarrow> date \<Rightarrow> db \<Rightarrow> (error + DealerRequest) \<times> db" where
  "cancel caller rid notes now d =
     (case rid of
        Oid i \<Rightarrow>
          (case findById r_id i (requests d) of
             None \<Rightarrow> (Inl NotFoundError, d)
           | Some request \<Rightarrow>
               if r_status request \<noteq> Pending then (Inl StateError, d)
               else (let request' = request\<lparr>r_status := Cancelled,
                                              r_processedBy := Some caller,
                                              r_processedAt := Some now,
                                              r_notes := js_trim (or_default notes [])\<rparr>
                     in case save_request request' d of
                          Inl e \<Rightarrow> (Inl e, d)
                        | Inr d' \<Rightarrow> (Inr request', d')))
      | _ \<Rightarrow> (Inl ValidationError, d))"

section \<open>The stock-allocation router\<close>

text \<open>
  The walk over the dealer's lots of \<open>router.post('/allocate')\<close>. The loop variables are
  \<open>remainingToAllocate\<close>, \<open>allocations\<close> and \<open>updatedStocks\<close>; each \<open>save()\<close> may throw,
  which ends the handler with the database as it is at that moment.
\<close>

fun walk ::
  "oid \<Rightarrow> oid \<Rightarrow> oid \<Rightarrow> string \<Rightarrow> date \<Rightarrow> DealerStock list \<Rightarrow> rat \<Rightarrow> StockAllocation list
     \<Rightarrow> DealerStock list \<Rightarrow> db
     \<Rightarrow> (error + rat \<times> StockAllocation list \<times> DealerStock list) \<times> db" where
  "walk dealer salesman product notes now [] remaining allocs updated d =
     (Inr (remaining, allocs, updated), d)"
| "walk dealer salesman product notes now (stock # rest) remaining allocs updated d =
     (if remaining \<le> 0 then (Inr (remaining, allocs, updated), d)
      else if 0 < ds_availableStrips stock then
        (let toAllocate = min (ds_availableStrips stock) remaining;
             allocation = \<lparr>sa_id = nextId d, sa_dealer = dealer, sa_salesman = salesman,
                           sa_product = product, sa_strips = toAllocate,
                           sa_dealerStock = ds_id stock, sa_notes = notes, sa_createdAt = now\<rparr>
         in case insert_allocation allocation d of
              Inl e \<Rightarrow> (Inl e, d)
            | Inr d1 \<Rightarrow>
                (let stock' = stock\<lparr>ds_allocatedStrips :=
                                       fadd (ds_allocatedStrips stock) toAllocate,
                                     ds_availableStrips :=
                                       fsub (ds_totalStrips stock)
                                            (fadd (ds_allocatedStrips stock) toAllocate)\<rparr>
                 in case save_stock stock' d1 of
                      Inl e \<Rightarrow> (Inl e, d1)
                    | Inr d2 \<Rightarrow>
                        walk dealer salesman product notes now rest (fsub remaining toAllocate)
                          (allocs @ [allocation]) (updated @ [stock']) d2))
      else walk dealer salesman product notes now rest remaining allocs updated d)"

text \<open>
  The rollback loop: every lot of \<open>updatedStocks\<close> gets
  \<open>strips - remainingToAllocate\<close> subtracted from its \<open>allocatedStrips\<close>. The loop does
  not change \<open>remainingToAllocate\<close>, so the amount is the same for every lot.
\<close>

fun rollback :: "rat \<Rightarrow> DealerStock list \<Rightarrow> db \<Rightarrow> (error + unit) \<times> db" where
  "rollback amount [] d = (Inr (), d)"
| "rollback amount (stock # rest) d =
     (let stock' = stock\<lparr>ds_allocatedStrips := fsub (ds_allocatedStrips stock) amount,
                          ds_availableStrips :=
                            fsub (ds_totalStrips stock)
                                 (fsub (ds_allocatedStrips stock) amount)\<rparr>
      in case save_stock stock' d of
           Inl e \<Rightarrow> (Inl e, d)
         | Inr d' \<Rightarrow> rollback amount rest d')"

text \<open>
  \<open>router.post('/allocate')\<close>. The success response carries \<open>allocations[0]\<close> and
  \<open>totalAllocated\<close>.
\<close>

definition allocate ::
  "oid \<Rightarrow> id_input \<Rightarrow> id_input \<Rightarrow> json \<Rightarrow> string option \<Rightarrow> date \<Rightarrow> db
     \<Rightarrow> (error + StockAllocation \<times> rat) \<times> db" where
  "allocate caller salesmanId productId strips notes now d =
     (if salesmanId = Missing \<or> productId = Missing \<or> \<not> truthy strips
      then (Inl ValidationError, d)
      else case strips of
        JNum n \<Rightarrow>
          if n < 1 then (Inl ValidationError, d)
          else (case (salesmanId, productId) of
            (Oid sid, Oid pid) \<Rightarrow>
              (case find (\<lambda>u. u_id u = sid \<and> u_createdBy u = Some caller
                                  \<and> u_role u = ''salesman'') (users d) of
                 None \<Rightarrow> (Inl NotFoundError, d)
               | Some salesman \<Rightarrow>
                   (case findById p_id pid (products d) of
                      None \<Rightarrow> (Inl NotFoundError, d)
                    | Some product \<Rightarrow>
                        (case walk caller sid pid (js_trim (or_default notes [])) now
                                (findStocks caller pid d) n [] [] d of
                           (Inl e, d1) \<Rightarrow> (Inl e, d1)
                         | (Inr (remaining, allocs, updated), d1) \<Rightarrow>
                             if 0 < remaining then
                               (case rollback (fsub n remaining) updated
                                       (deleteMany (map sa_id allocs) d1) of
                                  (Inl e, d2) \<Rightarrow> (Inl e, d2)
                                | (Inr u, d2) \<Rightarrow>
                                    (Inl (InsufficientStockError (Some (fsub n remaining))), d2))
                             else (case allocs of
                                     [] \<Rightarrow> (Inl ServerError, d1)
                                   | a # as \<Rightarrow> (Inr (a, n), d1)))))
          | _ \<Rightarrow> (Inl ValidationError, d))
      | _ \<Rightarrow> (Inl ValidationError, d))"

section \<open>Reachable states and the ledger invariant\<close>

text \<open>
  A lot is consistent when its \<open>availableStrips\<close> is \<open>totalStrips - allocatedStrips\<close>, as
  the handlers subtract, and \<open>0 \<le> allocatedStrips \<le> totalStrips\<close>.
\<close>

definition lot_ok :: "DealerStock \<Rightarrow> bool" where
  "lot_ok s = (ds_availableStrips s = fsub (ds_totalStrips s) (ds_allocatedStrips s)
               \<and> 0 \<le> ds_allocatedStrips s \<and> ds_allocatedStrips s \<le> ds_totalStrips s)"

text \<open>
  What never changes on a stored lot: its identifier and its source request are ObjectIds
  that were handed out, and every request with the source request's identifier is approved.
\<close>

definition lot_static :: "db \<Rightarrow> DealerStock \<Rightarrow> bool" where
  "lot_static d s = (ds_id s < nextId d \<and> ds_sourceRequest s < nextId d
       \<and> list_all (\<lambda>r. r_id r \<noteq> ds_sourceRequest s \<or> r_status r = Approved) (requests d))"

definition db_inv :: "db \<Rightarrow> bool" where
  "db_inv d = (distinct (map ds_id (dealerStocks d))
       \<and> list_all (\<lambda>s. lot_ok s \<and> is_double (ds_allocatedStrips s) \<and> lot_static d s)
            (dealerStocks d)
       \<and> list_all (\<lambda>r. r_id r < nextId d \<and> 1 \<le> r_strips r \<and> is_double (r_strips r))
            (requests d))"

text \<open>
  The states the system can be in when the handlers run one after another: it starts with
  no request, lot or allocation (any product catalogue, any users); the product and user
  routers, which are outside this core, may change the catalogue and the users at any time;
  and every handler of the two routers may run with any arguments that the body parser can
  deliver, whatever it answers.
\<close>

inductive reachable :: "db \<Rightarrow> bool" where
  initial: "requests d = [] \<Longrightarrow> dealerStocks d = [] \<Longrightarrow> allocations d = [] \<Longrightarrow> reachable d"
| catalogue: "reachable d \<Longrightarrow> reachable (d\<lparr>products := ps, users := us\<rparr>)"
| createRequest: "reachable d \<Longrightarrow> parsed strips
     \<Longrightarrow> reachable (snd (createRequest caller productId strips now d))"
| uploadReceipt: "reachable d \<Longrightarrow> reachable (snd (uploadReceipt caller rid file d))"
| verifyPayment: "reachable d \<Longrightarrow> reachable (snd (verifyPayment caller rid notes now d))"
| rejectPayment: "reachable d \<Longrightarrow> reachable (snd (rejectPayment caller rid notes now d))"
| approve: "reachable d \<Longrightarrow> reachable (snd (approve caller rid notes now d))"
| cancel: "reachable d \<Longrightarrow> reachable (snd (cancel caller rid notes now d))"
| allocate: "reachable d \<Longrightarrow> parsed strips
     \<Longrightarrow> reachable (snd (allocate caller salesmanId productId strips notes now d))"

section \<open>Oldest-first allocation, as the specification words it\<close>

text \<open>
  Walk the ordered lots; for each with available units, take
  \<open>min(availableUnits, remainingQuantity)\<close> from it; stop when the remaining quantity is 0
  or the lots are exhausted. \<open>fifo_portions\<close> lists the lot and the portion of every
  allocation record, \<open>fifo_drain\<close> gives the lots after the walk. The plan is the
  specification's: its sums and differences are exact, not rounded.
\<close>

fun fifo_portions :: "rat \<Rightarrow> DealerStock list \<Rightarrow> (oid \<times> rat) list" where
  "fifo_portions remaining [] = []"
| "fifo_portions remaining (lot # lots) =
     (if remaining = 0 then []
      else if 0 < ds_availableStrips lot
      then (ds_id lot, min (ds_availableStrips lot) remaining)
             # fifo_portions (remaining - min (ds_availableStrips lot) remaining) lots
      else fifo_portions remaining lots)"

fun fifo_drain :: "rat \<Rightarrow> DealerStock list \<Rightarrow> DealerStock list" where
  "fifo_drain remaining [] = []"
| "fifo_drain remaining (lot # lots) =
     (if remaining = 0 then lot # lots
      else if 0 < ds_availableStrips lot
      then lot\<lparr>ds_allocatedStrips := ds_allocatedStrips lot + min (ds_availableStrips lot) remaining,
               ds_availableStrips := ds_availableStrips lot - min (ds_availableStrips lot) remaining\<rparr>
             # fifo_drain (remaining - min (ds_availableStrips lot) remaining) lots
      else lot # fifo_drain remaining lots)"

text \<open>
  The stored lots after the plan: every stored lot is sent through the replacements, in
  order, that the saves of a walk with exact sums make.
\<close>

fun drain_fun :: "rat \<Rightarrow> DealerStock list \<Rightarrow> DealerStock \<Rightarrow> DealerStock" where
  "drain_fun remaining [] x = x"
| "drain_fun remaining (lot # lots) x =
     (if remaining \<le> 0 then x
      else if 0 < ds_availableStrips lot
      then drain_fun (remaining - min (ds_availableStrips lot) remaining) lots
             (if ds_id x = ds_id lot
              then lot\<lparr>ds_allocatedStrips := ds_allocatedStrips lot + min (ds_availableStrips lot) remaining,
                      ds_availableStrips := ds_totalStrips lot
                         - (ds_allocatedStrips lot + min (ds_availableStrips lot) remaining)\<rparr>
              else x)
      else drain_fun remaining lots x)"

definition lot_key :: "DealerStock \<Rightarrow> oid \<times> oid \<times> oid \<times> date" where
  "lot_key s = (ds_id s, ds_dealer s, ds_product s, ds_createdAt s)"

text \<open>The sum of \<open>strips\<close> over the allocation records that reference a lot.\<close>

definition allocated_sum :: "oid \<Rightarrow> db \<Rightarrow> rat" where
  "allocated_sum lot d =
     sum_list (map sa_strips (filter (\<lambda>a. sa_dealerStock a = lot) (allocations d)))"

text \<open>A lot whose quantities are whole numbers.\<close>

definition whole_lot :: "DealerStock \<Rightarrow> bool" where
  "whole_lot s = (whole (ds_totalStrips s) \<and> whole (ds_allocatedStrips s))"

section \<open>A worked example\<close>

text \<open>
  One product with 100 strips in central stock, dealer 2, salesman 3 (created by the
  dealer) and admin 9. \<open>lifecycle n t\<close> takes one request for \<open>n\<close> strips from creation
  through receipt upload and payment verification to approval. \<open>demo_db\<close> is the shop after
  two such requests, for 10 and for 25 strips, and a third request for 5 strips that is
  still pending; in \<open>demo_verified_db\<close> the payment of the third request is verified.
\<close>

definition shop0 :: db where
  "shop0 = \<lparr>products = [\<lparr>p_id = 1, p_stock = 100\<rparr>], requests = [], dealerStocks = [],
            allocations = [],
            users = [\<lparr>u_id = 3, u_role = ''salesman'', u_createdBy = Some 2\<rparr>], nextId = 10\<rparr>"

definition lifecycle :: "rat \<Rightarrow> date \<Rightarrow> db \<Rightarrow> db" where
  "lifecycle n t d =
     snd (approve 9 (Oid (nextId d)) None (t + 3)
       (snd (verifyPayment 9 (Oid (nextId d)) None (t + 2)
         (snd (uploadReceipt 2 (Oid (nextId d)) (Uploaded ''receipt.png'')
           (snd (createRequest 2 (Oid 1) (JNum n) t d)))))))"

definition demo_db :: db where
  "demo_db = snd (createRequest 2 (Oid 1) (JNum 5) 9 (lifecycle 25 5 (lifecycle 10 1 shop0)))"

definition demo_verified_db :: db where
  "demo_verified_db =
     snd (verifyPayment 9 (Oid 14) None 11
       (snd (uploadReceipt 2 (Oid 14) (Uploaded ''receipt.png'') demo_db)))"

text \<open>
  \<open>retry_db\<close> is \<open>demo_verified_db\<close> with a lot already stored for the third request, as a
  second approval running beside the first one would find it.
\<close>

definition retry_db :: db where
  "retry_db = demo_verified_db\<lparr>dealerStocks := dealerStocks demo_verified_db @
       [\<lparr>ds_id = 15, ds_dealer = 2, ds_product = 1, ds_totalStrips = 5, ds_allocatedStrips = 0,
         ds_availableStrips = 5, ds_sourceRequest = 14, ds_createdAt = 12\<rparr>],
     nextId := 16\<rparr>"

text \<open>\<open>fraction_db\<close>: the shop after the whole lifecycle of one request for 2.5 strips.\<close>

definition fraction_db :: db where
  "fraction_db = lifecycle (5 / 2) 1 shop0"

text \<open>
  \<open>drift_db\<close>: a first request for 3.4 strips runs its whole lifecycle, the dealer
  allocates 1.3 strips of the lot, and a second request for 5 strips runs its whole
  lifecycle. The numbers 3.4 and 1.3 of the request bodies are the doubles nearest to
  17/5 and 13/10.
\<close>

definition drift_db :: db where
  "drift_db = lifecycle 5 6
     (snd (allocate 2 (Oid 3) (Oid 1) (JNum (fl (13 / 10))) None 5
        (lifecycle (fl (17 / 5)) 1 shop0)))"

section \<open>Rounding to the nearest double\<close>

text \<open>
  What the handlers' arithmetic keeps under rounding: \<open>fl x\<close> lies in the binade of \<open>x\<close>
  and has its sign, \<open>fl\<close> is monotone, and \<open>fl\<close> is the identity on every \<open>m * 2 ^ k\<close>
  with \<open>\<bar>m\<bar> < 2 ^ 53\<close>, on its own results, and on the integers up to \<open>2 ^ 53\<close>.
\<close>

lemma ilog2_bounds:
  assumes "0 < x"
  shows "2 powi (ilog2 x) \<le> x" and "x < 2 powi (ilog2 x + 1)"
proof -
  have "2 powi (ilog2 x) \<le> x \<and> x < 2 powi (ilog2 x + 1)"
  proof (cases "1 \<le> x")
    case True
    define n where "n = \<lfloor>x\<rfloor>"
    have n: "0 < n" using True by (simp add: n_def)
    from bitlen_bounds[OF n] have b: "2 ^ nat (bitlen n - 1) \<le> n" "n < 2 ^ nat (bitlen n)" by auto
    have b1: "1 \<le> bitlen n" using n by (simp add: bitlen_alt_def)
    have e: "ilog2 x = bitlen n - 1" using True by (simp add: ilog2_def n_def)
    have "(2::rat) powi (bitlen n - 1) = of_int (2 ^ nat (bitlen n - 1))"
      using b1 by (simp add: power_int_def)
    also have "\<dots> \<le> of_int n" using b(1) by (simp only: of_int_le_iff)
    also have "\<dots> \<le> x" by (simp add: n_def)
    finally have lo: "2 powi (ilog2 x) \<le> x" by (simp add: e)
    have "n + 1 \<le> 2 ^ nat (bitlen n)" using b(2) by simp
    then have "(of_int (n + 1) :: rat) \<le> of_int (2 ^ nat (bitlen n))" by (simp only: of_int_le_iff)
    moreover have "x < of_int (n + 1)" using floor_correct[of x] by (simp add: n_def)
    moreover have "(2::rat) powi (bitlen n) = of_int (2 ^ nat (bitlen n))"
      using b1 by (simp add: power_int_def)
    ultimately have "x < 2 powi (ilog2 x + 1)" by (simp add: e)
    with lo show ?thesis by simp
  next
    case False
    define y where "y = 1 / x"
    define m where "m = \<lceil>y\<rceil> - 1"
    have y: "1 < y" using False assms by (simp add: y_def)
    then have m: "0 < m" by (simp add: m_def less_ceiling_iff)
    from bitlen_bounds[OF m] have b: "2 ^ nat (bitlen m - 1) \<le> m" "m < 2 ^ nat (bitlen m)" by auto
    have b1: "1 \<le> bitlen m" using m by (simp add: bitlen_alt_def)
    have e: "ilog2 x = - bitlen m" using False by (simp add: ilog2_def m_def y_def)
    have my: "of_int m < y" "y \<le> of_int (m + 1)"
      by (simp_all add: m_def) linarith
    have "m + 1 \<le> 2 ^ nat (bitlen m)" using b(2) by simp
    then have "(of_int (m + 1) :: rat) \<le> of_int (2 ^ nat (bitlen m))" by (simp only: of_int_le_iff)
    then have "(of_int (m + 1) :: rat) \<le> 2 ^ nat (bitlen m)" by simp
    with my(2) have "y \<le> 2 ^ nat (bitlen m)" by linarith
    then have "1 / x \<le> 2 ^ nat (bitlen m)" by (simp add: y_def)
    then have "1 / 2 ^ nat (bitlen m) \<le> x" using assms
      by (simp add: field_simps)
    moreover have "(2::rat) powi (- bitlen m) = 1 / 2 ^ nat (bitlen m)"
      using b1 by (simp add: power_int_def field_simps)
    ultimately have lo: "2 powi (ilog2 x) \<le> x" by (simp add: e)
    have "(of_int (2 ^ nat (bitlen m - 1)) :: rat) \<le> of_int m" using b(1) by (simp only: of_int_le_iff)
    then have "(2::rat) ^ nat (bitlen m - 1) \<le> of_int m" by simp
    with my(1) have "2 ^ nat (bitlen m - 1) < y" by linarith
    then have "2 ^ nat (bitlen m - 1) < 1 / x" by (simp add: y_def)
    then have "x < 1 / 2 ^ nat (bitlen m - 1)" using assms by (simp add: field_simps)
    moreover have "(2::rat) powi (- bitlen m + 1) = 1 / 2 ^ nat (bitlen m - 1)"
    proof -
      have "- bitlen m + 1 = - (bitlen m - 1)" by simp
      then have "(2::rat) powi (- bitlen m + 1) = 2 powi (- (bitlen m - 1))" by simp
      also have "\<dots> = 1 / 2 powi (bitlen m - 1)"
        by (simp only: power_int_minus inverse_eq_divide)
      also have "(2::rat) powi (bitlen m - 1) = 2 ^ nat (bitlen m - 1)"
        using b1 by (simp add: power_int_def)
      finally show ?thesis .
    qed
    ultimately have "x < 2 powi (ilog2 x + 1)" by (simp add: e)
    with lo show ?thesis by simp
  qed
  then show "2 powi (ilog2 x) \<le> x" and "x < 2 powi (ilog2 x + 1)" by simp_all
qed

lemma round_even_of_int [simp]: "round_even (of_int n) = n"
  by (simp add: round_even_def)

lemma round_even_bounds: "\<lfloor>r\<rfloor> \<le> round_even r" "round_even r \<le> \<lfloor>r\<rfloor> + 1"
  by (simp_all add: round_even_def)

lemma round_even_mono:
  assumes "r \<le> s"
  shows "round_even r \<le> round_even s"
proof (cases "\<lfloor>r\<rfloor> = \<lfloor>s\<rfloor>")
  case True
  with assms show ?thesis by (auto simp: round_even_def)
next
  case False
  with assms have "\<lfloor>r\<rfloor> < \<lfloor>s\<rfloor>" using floor_mono[OF assms] by simp
  then have "round_even r \<le> \<lfloor>s\<rfloor>" using round_even_bounds(2)[of r] by simp
  then show ?thesis using round_even_bounds(1)[of s] by simp
qed

lemma pow2_less_imp: "(2::rat) powi a < 2 powi b \<Longrightarrow> a < b"
  using power_int_increasing[of b a "2::rat"] by (cases "a < b") auto

lemma fl_zero [simp]: "fl 0 = 0"
  by (simp add: fl_def)

lemma fl_minus: "fl (- x) = - fl x"
  by (simp add: fl_def)

lemma fl_pos_unfold:
  "0 < x \<Longrightarrow> fl x = of_int (round_even (x / 2 powi (ilog2 x - 52))) * 2 powi (ilog2 x - 52)"
  by (simp add: fl_def)

lemma scaled_bounds:
  assumes "0 < x"
  shows "2 ^ 52 \<le> x / 2 powi (ilog2 x - 52)" and "x / 2 powi (ilog2 x - 52) < 2 ^ 53"
proof -
  have u: "(0::rat) < 2 powi (ilog2 x - 52)" by simp
  have lo: "(2::rat) ^ 52 * 2 powi (ilog2 x - 52) = 2 powi (ilog2 x)"
  proof -
    have "(2::rat) powi (52 + (ilog2 x - 52)) = 2 powi 52 * 2 powi (ilog2 x - 52)"
      by (rule power_int_add) simp
    then show ?thesis by (simp add: power_int_def)
  qed
  have hi: "(2::rat) ^ 53 * 2 powi (ilog2 x - 52) = 2 powi (ilog2 x + 1)"
  proof -
    have "(2::rat) powi (53 + (ilog2 x - 52)) = 2 powi 53 * 2 powi (ilog2 x - 52)"
      by (rule power_int_add) simp
    moreover have "53 + (ilog2 x - 52) = ilog2 x + 1" by simp
    ultimately show ?thesis by (simp add: power_int_def)
  qed
  show "2 ^ 52 \<le> x / 2 powi (ilog2 x - 52)"
    using ilog2_bounds(1)[OF assms] u lo by (simp add: pos_le_divide_eq)
  show "x / 2 powi (ilog2 x - 52) < 2 ^ 53"
    using ilog2_bounds(2)[OF assms] u hi by (simp add: pos_divide_less_eq)
qed

lemma rounded_bounds:
  assumes "0 < x"
  shows "2 ^ 52 \<le> round_even (x / 2 powi (ilog2 x - 52))"
    and "round_even (x / 2 powi (ilog2 x - 52)) \<le> 2 ^ 53"
proof -
  have "round_even (of_int (2 ^ 52)) \<le> round_even (x / 2 powi (ilog2 x - 52))"
    by (rule round_even_mono) (use scaled_bounds(1)[OF assms] in simp)
  then show "2 ^ 52 \<le> round_even (x / 2 powi (ilog2 x - 52))"
    by (simp only: round_even_of_int)
  have "round_even (x / 2 powi (ilog2 x - 52)) \<le> round_even (of_int (2 ^ 53))"
    by (rule round_even_mono) (use scaled_bounds(2)[OF assms] in simp)
  then show "round_even (x / 2 powi (ilog2 x - 52)) \<le> 2 ^ 53"
    by (simp only: round_even_of_int)
qed

lemma fl_bounds:
  assumes "0 < x"
  shows "2 powi (ilog2 x) \<le> fl x" and "fl x \<le> 2 powi (ilog2 x + 1)"
proof -
  let ?u = "(2::rat) powi (ilog2 x - 52)"
  let ?m = "round_even (x / ?u)"
  have u: "0 < ?u" by simp
  have lo: "(2::rat) ^ 52 * ?u = 2 powi (ilog2 x)"
  proof -
    have "(2::rat) powi (52 + (ilog2 x - 52)) = 2 powi 52 * ?u"
      by (rule power_int_add) simp
    then show ?thesis by (simp add: power_int_def)
  qed
  have hi: "(2::rat) ^ 53 * ?u = 2 powi (ilog2 x + 1)"
  proof -
    have "(2::rat) powi (53 + (ilog2 x - 52)) = 2 powi 53 * ?u"
      by (rule power_int_add) simp
    moreover have "53 + (ilog2 x - 52) = ilog2 x + 1" by simp
    ultimately show ?thesis by (simp add: power_int_def)
  qed
  have "(of_int (2 ^ 52) :: rat) \<le> of_int ?m"
    using rounded_bounds(1)[OF assms] by (simp only: of_int_le_iff)
  then have "(2::rat) ^ 52 * ?u \<le> of_int ?m * ?u" using u by simp
  then show "2 powi (ilog2 x) \<le> fl x" by (simp only: lo fl_pos_unfold[OF assms])
  have "(of_int ?m :: rat) \<le> of_int (2 ^ 53)"
    using rounded_bounds(2)[OF assms] by (simp only: of_int_le_iff)
  then have "of_int ?m * ?u \<le> (2::rat) ^ 53 * ?u" using u by simp
  then show "fl x \<le> 2 powi (ilog2 x + 1)" by (simp only: hi fl_pos_unfold[OF assms])
qed

lemma fl_pos: "0 < x \<Longrightarrow> 0 < fl x"
proof -
  assume x: "0 < x"
  have "(0::rat) < 2 powi (ilog2 x)" by simp
  with fl_bounds(1)[OF x] show ?thesis by linarith
qed

lemma fl_neg: "x < 0 \<Longrightarrow> fl x < 0"
  using fl_pos[of "- x"] by (simp add: fl_minus)

lemma fl_sign:
  "0 \<le> fl x \<longleftrightarrow> 0 \<le> x" "fl x < 0 \<longleftrightarrow> x < 0" "fl x = 0 \<longleftrightarrow> x = 0"
  "fl x \<le> 0 \<longleftrightarrow> x \<le> 0" "0 < fl x \<longleftrightarrow> 0 < x"
proof -
  consider "x = 0" | "0 < x" | "x < 0" by linarith
  then have "(0 \<le> fl x \<longleftrightarrow> 0 \<le> x) \<and> (fl x < 0 \<longleftrightarrow> x < 0) \<and> (fl x = 0 \<longleftrightarrow> x = 0)
      \<and> (fl x \<le> 0 \<longleftrightarrow> x \<le> 0) \<and> (0 < fl x \<longleftrightarrow> 0 < x)"
  proof cases
    case 1
    then show ?thesis by simp
  next
    case 2
    with fl_pos[OF 2] show ?thesis by simp
  next
    case 3
    with fl_neg[OF 3] show ?thesis by simp
  qed
  then show "0 \<le> fl x \<longleftrightarrow> 0 \<le> x" "fl x < 0 \<longleftrightarrow> x < 0" "fl x = 0 \<longleftrightarrow> x = 0"
    "fl x \<le> 0 \<longleftrightarrow> x \<le> 0" "0 < fl x \<longleftrightarrow> 0 < x" by blast+
qed

text \<open>Exactness on the doubles.\<close>

lemma fl_exact_pos:
  assumes "0 < m" "m < 2 ^ 53" "x = of_int m * 2 powi k"
  shows "fl x = x"
proof -
  have x: "0 < x" using assms(1,3) by simp
  let ?e = "ilog2 x"
  have "x < 2 ^ 53 * 2 powi k"
  proof -
    have "(of_int m :: rat) < of_int (2 ^ 53)" using assms(2) by (simp only: of_int_less_iff)
    then show ?thesis using assms(3) by simp
  qed
  also have "(2::rat) ^ 53 * 2 powi k = 2 powi (53 + k)"
  proof -
    have "(2::rat) powi (53 + k) = 2 powi 53 * 2 powi k" by (rule power_int_add) simp
    then show ?thesis by (simp add: power_int_def)
  qed
  finally have "2 powi ?e < (2::rat) powi (53 + k)" using ilog2_bounds(1)[OF x] by simp
  then have j: "0 \<le> k - (?e - 52)" using pow2_less_imp by fastforce
  define u where "u = (2::rat) powi (?e - 52)"
  define j where "j = k - (?e - 52)"
  have u: "u \<noteq> 0" by (simp add: u_def)
  have "(2::rat) powi (j + (?e - 52)) = 2 powi j * 2 powi (?e - 52)"
    by (rule power_int_add) simp
  then have split: "(2::rat) powi k = 2 powi j * u" by (simp add: j_def u_def)
  have "x / u = of_int m * (2 powi j * u) / u" by (simp only: assms(3) split)
  also have "\<dots> = of_int m * 2 powi j" using u by simp
  also have "\<dots> = of_int (m * 2 ^ nat j)"
    using j by (simp add: power_int_def j_def)
  finally have q: "x / u = of_int (m * 2 ^ nat j)" .
  have "fl x = of_int (round_even (x / u)) * u"
    unfolding u_def by (rule fl_pos_unfold[OF x])
  also have "\<dots> = x / u * u" by (simp only: q round_even_of_int)
  also have "\<dots> = x" using u by simp
  finally show ?thesis .
qed

lemma fl_pow2 [simp]: "fl (2 powi k) = 2 powi k"
  using fl_exact_pos[of 1 "2 powi k" k] by simp

lemma fl_idem [simp]: "fl (fl x) = fl x"
proof -
  have pos: "fl (fl y) = fl y" if "0 < y" for y
  proof (cases "round_even (y / 2 powi (ilog2 y - 52)) = 2 ^ 53")
    case True
    have "(2::rat) powi (53 + (ilog2 y - 52)) = 2 powi 53 * 2 powi (ilog2 y - 52)"
      by (rule power_int_add) simp
    then have "fl y = 2 powi (53 + (ilog2 y - 52))"
      unfolding fl_pos_unfold[OF that] True by (simp add: power_int_def)
    then show ?thesis by simp
  next
    case False
    with rounded_bounds[OF that] have
      "0 < round_even (y / 2 powi (ilog2 y - 52))" "round_even (y / 2 powi (ilog2 y - 52)) < 2 ^ 53"
      by auto
    then show ?thesis by (rule fl_exact_pos) (rule fl_pos_unfold[OF that])
  qed
  show ?thesis
  proof (cases "0 < x")
    case True
    then show ?thesis by (rule pos)
  next
    case False
    show ?thesis
    proof (cases "x = 0")
      case True
      then show ?thesis by simp
    next
      case nz: False
      with False have "0 < - x" by simp
      from pos[OF this] show ?thesis by (simp add: fl_minus)
    qed
  qed
qed

lemma fl_of_int:
  assumes "\<bar>n\<bar> \<le> 2 ^ 53"
  shows "fl (of_int n) = of_int n"
proof -
  have pos: "fl (of_int m) = of_int m" if "0 < m" "m \<le> 2 ^ 53" for m
  proof (cases "m = 2 ^ 53")
    case True
    have "fl (2 powi 53) = 2 powi 53" by (rule fl_pow2)
    then have "fl (2 ^ 53) = 2 ^ 53" by simp
    then show ?thesis unfolding True by simp
  next
    case False
    with that have "m < 2 ^ 53" by simp
    with that(1) show ?thesis by (rule fl_exact_pos[where k = 0]) simp
  qed
  consider "n = 0" | "0 < n" | "0 < - n" by linarith
  then show ?thesis
  proof cases
    case 1
    then show ?thesis by simp
  next
    case 2
    with assms show ?thesis by (intro pos) auto
  next
    case 3
    with assms have "fl (of_int (- n)) = of_int (- n)" by (intro pos) auto
    then show ?thesis by (simp add: fl_minus)
  qed
qed

lemma fl_mono:
  assumes "x \<le> y"
  shows "fl x \<le> fl y"
proof -
  have pos: "fl a \<le> fl b" if "0 < a" "a \<le> b" for a b
  proof -
    have b: "0 < b" using that by simp
    have "ilog2 a \<le> ilog2 b"
    proof (rule ccontr)
      assume "\<not> ilog2 a \<le> ilog2 b"
      then have "ilog2 b + 1 \<le> ilog2 a" by simp
      then have "(2::rat) powi (ilog2 b + 1) \<le> 2 powi (ilog2 a)"
        by (intro power_int_increasing) simp_all
      with ilog2_bounds(1)[OF that(1)] ilog2_bounds(2)[OF b] that(2) show False by simp
    qed
    then consider "ilog2 a = ilog2 b" | "ilog2 a + 1 \<le> ilog2 b" by linarith
    then show ?thesis
    proof cases
      case 1
      have "a / 2 powi (ilog2 b - 52) \<le> b / 2 powi (ilog2 b - 52)"
        using that(2) by (simp add: divide_right_mono)
      then have "round_even (a / 2 powi (ilog2 b - 52)) \<le> round_even (b / 2 powi (ilog2 b - 52))"
        by (rule round_even_mono)
      then have "(of_int (round_even (a / 2 powi (ilog2 b - 52))) :: rat)
                   \<le> of_int (round_even (b / 2 powi (ilog2 b - 52)))"
        by (simp only: of_int_le_iff)
      then show ?thesis
        unfolding fl_pos_unfold[OF that(1)] fl_pos_unfold[OF b] 1
        by (simp add: mult_right_mono)
    next
      case 2
      have "fl a \<le> 2 powi (ilog2 a + 1)" by (rule fl_bounds(2)[OF that(1)])
      also have "\<dots> \<le> 2 powi (ilog2 b)" using 2 by (intro power_int_increasing) simp_all
      also have "\<dots> \<le> fl b" by (rule fl_bounds(1)[OF b])
      finally show ?thesis .
    qed
  qed
  consider "0 < x" | "x \<le> 0" "0 \<le> y" | "y < 0" by linarith
  then show ?thesis
  proof cases
    case 1
    with assms show ?thesis by (intro pos)
  next
    case 2
    then have "fl x \<le> 0" "0 \<le> fl y" by (simp_all add: fl_sign)
    then show ?thesis by simp
  next
    case 3
    then have "0 < - y" "- y \<le> - x" using assms by simp_all
    from pos[OF this] show ?thesis by (simp add: fl_minus)
  qed
qed

section \<open>Sums and differences of doubles\<close>

lemma fsub_sign:
  "0 \<le> fsub x y \<longleftrightarrow> y \<le> x" "fsub x y < 0 \<longleftrightarrow> x < y" "fsub x y = 0 \<longleftrightarrow> x = y"
  by (simp_all add: fsub_def fl_sign)

lemma fadd_nonneg: "0 \<le> x \<Longrightarrow> 0 \<le> y \<Longrightarrow> 0 \<le> fadd x y"
  by (simp add: fadd_def fl_sign)

lemma is_double_simps [simp]:
  "is_double 0" "is_double (fl x)" "is_double (fadd x y)" "is_double (fsub x y)"
  by (simp_all add: is_double_def fadd_def fsub_def)

lemma fsub_zero_right: "is_double x \<Longrightarrow> fsub x 0 = x"
  by (simp add: fsub_def is_double_def)

lemma fadd_ge_double:
  assumes "is_double a" "a \<le> x + y"
  shows "a \<le> fadd x y"
proof -
  have "fl a \<le> fl (x + y)" by (rule fl_mono[OF assms(2)])
  with assms(1) show ?thesis by (simp add: is_double_def fadd_def)
qed

lemma whole_fl: "whole x \<Longrightarrow> fl x = x"
proof -
  assume w: "whole x"
  then have x: "of_int \<lfloor>x\<rfloor> = x" and b: "0 \<le> x" "x \<le> 2 ^ 53" by (simp_all add: whole_def)
  have "(of_int \<lfloor>x\<rfloor> :: rat) \<le> of_int (2 ^ 53)" using x b(2) by simp
  then have "\<lfloor>x\<rfloor> \<le> 2 ^ 53" by (simp only: of_int_le_iff)
  moreover have "0 \<le> \<lfloor>x\<rfloor>" using b(1) by simp
  ultimately have "\<bar>\<lfloor>x\<rfloor>\<bar> \<le> 2 ^ 53" by simp
  from fl_of_int[OF this] x show ?thesis by simp
qed

lemma whole_is_double: "whole x \<Longrightarrow> is_double x"
  by (simp add: is_double_def whole_fl)

lemma whole_add: "whole x \<Longrightarrow> whole y \<Longrightarrow> x + y \<le> 2 ^ 53 \<Longrightarrow> whole (x + y)"
  unfolding whole_def by (metis add_nonneg_nonneg of_int_add of_int_floor_cancel)

lemma whole_diff: "whole x \<Longrightarrow> whole y \<Longrightarrow> y \<le> x \<Longrightarrow> whole (x - y)"
proof -
  assume a: "whole x" "whole y" "y \<le> x"
  then have "of_int \<lfloor>x\<rfloor> = x" "of_int \<lfloor>y\<rfloor> = y" by (simp_all only: whole_def)
  then have "of_int (\<lfloor>x\<rfloor> - \<lfloor>y\<rfloor>) = x - y" by (simp only: of_int_diff)
  then have "of_int \<lfloor>x - y\<rfloor> = x - y" by (metis of_int_floor_cancel)
  moreover have "0 \<le> x - y" "x - y \<le> 2 ^ 53" using a by (simp_all add: whole_def)
  ultimately show ?thesis by (simp add: whole_def)
qed

lemma whole_min: "whole x \<Longrightarrow> whole y \<Longrightarrow> whole (min x y)"
  by (simp add: min_def)

lemma whole_fadd: "whole x \<Longrightarrow> whole y \<Longrightarrow> x + y \<le> 2 ^ 53 \<Longrightarrow> fadd x y = x + y"
  by (simp add: fadd_def whole_fl whole_add)

lemma whole_fsub: "whole x \<Longrightarrow> whole y \<Longrightarrow> y \<le> x \<Longrightarrow> fsub x y = x - y"
  by (simp add: fsub_def whole_fl whole_diff)

lemma whole_numeral [simp]: "(numeral k :: rat) \<le> 2 ^ 53 \<Longrightarrow> whole (numeral k)"
proof -
  have "(of_int \<lfloor>numeral k :: rat\<rfloor> :: rat) = numeral k" by simp
  then show "(numeral k :: rat) \<le> 2 ^ 53 \<Longrightarrow> whole (numeral k)"
    unfolding whole_def by simp
qed

lemma whole_zero [simp]: "whole 0"
  by (simp add: whole_def)

section \<open>Documents and saves\<close>

lemma findById_replace_self:
  "findById key (key x) docs = Some y \<Longrightarrow> findById key (key x) (replaceById key x docs) = Some x"
  by (induction docs) (auto simp: findById_def replaceById_def split: if_splits)

lemma findById_Some: "findById key i docs = Some x \<Longrightarrow> x \<in> set docs \<and> key x = i"
  by (auto simp: findById_def find_Some_iff)

lemma in_replaceById: "x \<in> set (replaceById key y docs) \<Longrightarrow> x = y \<or> x \<in> set docs"
  by (auto simp: replaceById_def split: if_splits)

lemma presave_stock_Inr:
  "presave_stock s = Inr s' \<Longrightarrow>
     s' = s\<lparr>ds_availableStrips := fsub (ds_totalStrips s) (ds_allocatedStrips s)\<rparr> \<and> lot_ok s'"
  by (auto simp: presave_stock_def lot_ok_def Let_def fsub_sign not_less split: if_splits)

lemma map_id_replaceById [simp]: "map key (replaceById key x docs) = map key docs"
  by (induction docs) (auto simp: replaceById_def)

lemma lot_static_upd [simp]:
  "lot_static d (s\<lparr>ds_allocatedStrips := a\<rparr>) = lot_static d s"
  "lot_static d (s\<lparr>ds_availableStrips := v\<rparr>) = lot_static d s"
  "lot_static d (s\<lparr>ds_totalStrips := t\<rparr>) = lot_static d s"
  by (simp_all add: lot_static_def)

lemma lot_static_mono:
  "lot_static d s \<Longrightarrow> nextId d \<le> nextId d' \<Longrightarrow> requests d' = requests d \<Longrightarrow> lot_static d' s"
  by (auto simp: lot_static_def)

section \<open>Every handler keeps the ledger invariant\<close>

lemma save_stock_inv:
  assumes "save_stock s d = Inr d'" "db_inv d" "lot_static d s" "is_double (ds_allocatedStrips s)"
  shows "db_inv d' \<and> nextId d' = nextId d \<and> requests d' = requests d
          \<and> allocations d' = allocations d \<and> products d' = products d \<and> users d' = users d"
proof -
  from assms(1) obtain s' where p: "presave_stock s = Inr s'"
    and d': "d' = d\<lparr>dealerStocks := replaceById ds_id s' (dealerStocks d)\<rparr>"
    by (auto simp: save_stock_def split: sum.splits)
  from presave_stock_Inr[OF p] assms(3,4)
  have ok: "lot_ok s'" "lot_static d s'" "is_double (ds_allocatedStrips s')" by auto
  have "\<forall>x\<in>set (replaceById ds_id s' (dealerStocks d)).
          lot_ok x \<and> is_double (ds_allocatedStrips x) \<and> lot_static d x"
    using ok assms(2) by (auto simp: db_inv_def list_all_iff dest!: in_replaceById)
  then show ?thesis using assms(2) d'
    by (simp add: db_inv_def list_all_iff lot_static_def)
qed

lemma insert_allocation_inv:
  assumes "insert_allocation a d = Inr d'" "db_inv d"
  shows "db_inv d' \<and> nextId d' = nextId d + 1 \<and> requests d' = requests d
          \<and> dealerStocks d' = dealerStocks d \<and> products d' = products d \<and> users d' = users d"
  using assms
  by (auto simp: insert_allocation_def db_inv_def list_all_iff lot_static_def less_Suc_eq split: if_splits)

lemma walk_inv:
  assumes "db_inv d" "\<forall>s\<in>set ls. lot_static d s" "\<forall>s\<in>set upd. lot_static d s"
  shows "db_inv (snd (walk dealer sm pr nt now ls rem allocs upd d))
     \<and> requests (snd (walk dealer sm pr nt now ls rem allocs upd d)) = requests d
     \<and> nextId d \<le> nextId (snd (walk dealer sm pr nt now ls rem allocs upd d))
     \<and> (\<forall>rem' allocs' upd'. fst (walk dealer sm pr nt now ls rem allocs upd d) = Inr (rem', allocs', upd')
          \<longrightarrow> (\<forall>s\<in>set upd'. lot_static (snd (walk dealer sm pr nt now ls rem allocs upd d)) s))"
  using assms
proof (induction ls arbitrary: rem allocs upd d)
  case Nil
  then show ?case by simp
next
  case (Cons stock rest)
  show ?case
  proof (cases "rem \<le> 0")
    case True
    with Cons.prems show ?thesis by simp
  next
    case pos: False
    show ?thesis
    proof (cases "0 < ds_availableStrips stock")
      case False
      with pos Cons.IH[of d upd rem allocs] Cons.prems show ?thesis by simp
    next
      case True
      define p where "p = min (ds_availableStrips stock) rem"
      define a where "a = \<lparr>sa_id = nextId d, sa_dealer = dealer, sa_salesman = sm,
                           sa_product = pr, sa_strips = p,
                           sa_dealerStock = ds_id stock, sa_notes = nt, sa_createdAt = now\<rparr>"
      define stock' where "stock' = stock\<lparr>ds_allocatedStrips := fadd (ds_allocatedStrips stock) p,
                                     ds_availableStrips := fsub (ds_totalStrips stock)
                                        (fadd (ds_allocatedStrips stock) p)\<rparr>"
      show ?thesis
      proof (cases "insert_allocation a d")
        case (Inl e)
        with pos True Cons.prems show ?thesis by (simp add: Let_def a_def p_def)
      next
        case (Inr d1)
        note i1 = insert_allocation_inv[OF Inr Cons.prems(1)]
        have st1: "lot_static d1 stock'" "\<forall>s\<in>set rest. lot_static d1 s" "\<forall>s\<in>set upd. lot_static d1 s"
          using Cons.prems(2,3) i1 by (auto simp: stock'_def intro: lot_static_mono)
        show ?thesis
        proof (cases "save_stock stock' d1")
          case (Inl e)
          with Inr pos True i1 show ?thesis by (simp add: Let_def a_def p_def stock'_def)
        next
          case d2: (Inr d2)
          have dbl: "is_double (ds_allocatedStrips stock')" by (simp add: stock'_def)
          have i2': "db_inv d2" "nextId d2 = nextId d1" "requests d2 = requests d1"
            using save_stock_inv[OF d2 _ st1(1) dbl] i1 by auto
          have st2: "\<forall>s\<in>set rest. lot_static d2 s" "\<forall>s\<in>set (upd @ [stock']). lot_static d2 s"
            using st1 i2' by (auto intro: lot_static_mono)
          have eq: "walk dealer sm pr nt now (stock # rest) rem allocs upd d
                = walk dealer sm pr nt now rest (fsub rem p) (allocs @ [a]) (upd @ [stock']) d2"
            using pos True Inr d2 by (simp add: Let_def a_def p_def stock'_def)
          show ?thesis unfolding eq
            using Cons.IH[OF i2'(1) st2, of "fsub rem p" "allocs @ [a]"] i2' i1 by simp
        qed
      qed
    qed
  qed
qed

lemma rollback_inv:
  assumes "db_inv d" "\<forall>s\<in>set upd. lot_static d s"
  shows "db_inv (snd (rollback amount upd d))
     \<and> requests (snd (rollback amount upd d)) = requests d
     \<and> nextId (snd (rollback amount upd d)) = nextId d"
  using assms
proof (induction upd arbitrary: d)
  case Nil
  then show ?case by simp
next
  case (Cons stock rest)
  define stock' where "stock' = stock\<lparr>ds_allocatedStrips := fsub (ds_allocatedStrips stock) amount,
                          ds_availableStrips := fsub (ds_totalStrips stock)
                             (fsub (ds_allocatedStrips stock) amount)\<rparr>"
  show ?case
  proof (cases "save_stock stock' d")
    case (Inl e)
    with Cons.prems show ?thesis by (simp add: Let_def stock'_def)
  next
    case (Inr d')
    have "lot_static d stock'" using Cons.prems(2) by (simp add: stock'_def)
    moreover have "is_double (ds_allocatedStrips stock')" by (simp add: stock'_def)
    ultimately have i: "db_inv d' \<and> nextId d' = nextId d \<and> requests d' = requests d"
      using save_stock_inv[OF Inr Cons.prems(1)] by simp
    have "\<forall>s\<in>set rest. lot_static d' s" using Cons.prems(2) i by (auto intro: lot_static_mono)
    from Cons.IH[OF _ this] i Inr show ?thesis by (simp add: Let_def stock'_def)
  qed
qed

lemma deleteMany_inv: "db_inv d \<Longrightarrow> db_inv (deleteMany ids d)"
  by (simp add: deleteMany_def db_inv_def lot_static_def)

lemma findStocks_subset: "set (findStocks dealer pr d) \<subseteq> set (dealerStocks d)"
  by (auto simp: findStocks_def)

lemma allocate_inv:
  assumes "db_inv d"
  shows "db_inv (snd (allocate caller sid pid strips notes now d))"
proof -
  have st: "\<forall>s\<in>set (findStocks caller p d). lot_static d s" for p
    using assms findStocks_subset[of caller p d] by (auto simp: db_inv_def list_all_iff)
  have core: "db_inv (snd (case walk caller s p nt now (findStocks caller p d) n [] [] d of
                           (Inl e, d1) \<Rightarrow> (Inl e, d1)
                         | (Inr (remaining, allocs, updated), d1) \<Rightarrow>
                             if 0 < remaining then
                               (case rollback (fsub n remaining) updated
                                       (deleteMany (map sa_id allocs) d1) of
                                  (Inl e, d2) \<Rightarrow> (Inl e, d2)
                                | (Inr u, d2) \<Rightarrow>
                                    (Inl (InsufficientStockError (Some (fsub n remaining))), d2))
                             else (case allocs of
                                     [] \<Rightarrow> (Inl ServerError, d1)
                                   | a # as \<Rightarrow> (Inr (a, n), d1))))" (is "db_inv (snd ?R)") for s p nt n
  proof -
    obtain res d1 where w: "walk caller s p nt now (findStocks caller p d) n [] [] d = (res, d1)"
      by (cases "walk caller s p nt now (findStocks caller p d) n [] [] d")
    from walk_inv[where d=d and ls="findStocks caller p d" and upd="[]" and dealer=caller
          and sm=s and pr=p and nt=nt and now=now and rem=n and allocs="[]"] assms st[of p] w
    have i1: "db_inv d1" and u1: "\<And>rem' allocs' upd'. res = Inr (rem', allocs', upd') \<Longrightarrow> \<forall>s\<in>set upd'. lot_static d1 s"
      by auto
    show ?thesis
    proof (cases res)
      case (Inl e)
      with w i1 show ?thesis by simp
    next
      case (Inr t)
      obtain remaining allocs updated where t: "t = (remaining, allocs, updated)" by (cases t)
      have u: "\<forall>s\<in>set updated. lot_static (deleteMany (map sa_id allocs) d1) s"
        using u1[of remaining allocs updated] Inr t by (simp add: deleteMany_def lot_static_def)
      from rollback_inv[OF deleteMany_inv[OF i1] u]
      have "db_inv (snd (rollback (fsub n remaining) updated (deleteMany (map sa_id allocs) d1)))"
        by simp
      then show ?thesis using w Inr t i1
        by (auto split: prod.splits sum.splits list.splits)
    qed
  qed
  show ?thesis
    unfolding allocate_def using assms core
    by (auto split: json.splits id_input.splits option.splits simp del: split_paired_All)
qed

text \<open>A request written back with its identity and quantity kept, and with a status that is
  either kept or leaves pending, or becomes approved.\<close>

lemma save_request_inv:
  assumes "save_request r' d = Inr d'" "db_inv d" "findById r_id i (requests d) = Some r"
    "r_id r' = r_id r" "r_strips r' = r_strips r"
    "r_status r' = r_status r \<or> r_status r = Pending \<or> r_status r' = Approved"
  shows "db_inv d'"
proof -
  from assms(1) have d': "d' = d\<lparr>requests := replaceById r_id r' (requests d)\<rparr>"
    by (auto simp: save_request_def split: if_splits)
  from findById_Some[OF assms(3)] have r: "r \<in> set (requests d)" "r_id r = i" by auto
  have a: "\<forall>x\<in>set (replaceById r_id r' (requests d)).
             r_id x < nextId d \<and> 1 \<le> r_strips x \<and> is_double (r_strips x)"
    using assms(2,4,5) r
    by (auto simp: db_inv_def list_all_iff dest!: in_replaceById)
  have b: "r_id x \<noteq> ds_sourceRequest s \<or> r_status x = Approved"
    if "x \<in> set (replaceById r_id r' (requests d))" "s \<in> set (dealerStocks d)" for x s
  proof -
    have old: "\<forall>y\<in>set (requests d). r_id y \<noteq> ds_sourceRequest s \<or> r_status y = Approved"
      using assms(2) that(2) by (auto simp: db_inv_def list_all_iff lot_static_def)
    from in_replaceById[OF that(1)]
    consider "x = r'" | "x \<in> set (requests d)" by auto
    then show ?thesis
    proof cases
      case 1
      with old r assms(4,6) show ?thesis by auto
    next
      case 2
      with old show ?thesis by auto
    qed
  qed
  show ?thesis using assms(2) a b unfolding d'
    by (auto simp: db_inv_def list_all_iff lot_static_def)
qed

lemma uploadReceipt_inv: "db_inv d \<Longrightarrow> db_inv (snd (uploadReceipt caller rid file d))"
  by (auto simp: uploadReceipt_def Let_def split: id_input.splits option.splits upload.splits sum.splits
      elim!: save_request_inv)

lemma verifyPayment_inv: "db_inv d \<Longrightarrow> db_inv (snd (verifyPayment caller rid notes now d))"
  by (auto simp: verifyPayment_def Let_def split: id_input.splits option.splits sum.splits
      elim!: save_request_inv)

lemma rejectPayment_inv: "db_inv d \<Longrightarrow> db_inv (snd (rejectPayment caller rid notes now d))"
  by (auto simp: rejectPayment_def Let_def split: id_input.splits option.splits sum.splits
      elim!: save_request_inv)

lemma cancel_inv: "db_inv d \<Longrightarrow> db_inv (snd (cancel caller rid notes now d))"
  by (auto simp: cancel_def Let_def split: id_input.splits option.splits sum.splits
      elim!: save_request_inv)

lemma createRequest_inv:
  assumes "db_inv d" "parsed strips"
  shows "db_inv (snd (createRequest caller productId strips now d))"
proof -
  have ins: "db_inv d'" if "insert_request r d = Inr d'" "r_id r = nextId d" "is_double (r_strips r)"
    for r d'
  proof -
    from that(1) have d': "d' = d\<lparr>requests := requests d @ [r], nextId := nextId d + 1\<rparr>"
      and s: "1 \<le> r_strips r"
      by (auto simp: insert_request_def split: if_splits)
    show ?thesis using assms(1) that(2,3) s unfolding d'
      by (auto simp: db_inv_def list_all_iff lot_static_def less_Suc_eq)
  qed
  show ?thesis using assms
    by (auto simp: createRequest_def Let_def
        split: id_input.splits json.splits option.splits sum.splits intro!: ins)
qed

lemma save_product_inv: "save_product p d = Inr d' \<Longrightarrow> db_inv d \<Longrightarrow>
   db_inv d' \<and> requests d' = requests d \<and> dealerStocks d' = dealerStocks d \<and> nextId d' = nextId d"
  by (auto simp: save_product_def db_inv_def lot_static_def split: if_splits)

lemma insert_stock_inv:
  assumes "insert_stock s d = Inr d'" "db_inv d" "ds_id s = nextId d" "ds_sourceRequest s < nextId d"
     "\<forall>r\<in>set (requests d). r_id r = ds_sourceRequest s \<longrightarrow> r_status r = Approved"
     "is_double (ds_allocatedStrips s)"
  shows "db_inv d'"
proof -
  from assms(1) obtain s' where p: "presave_stock s = Inr s'"
    and d': "d' = d\<lparr>dealerStocks := dealerStocks d @ [s'], nextId := nextId d + 1\<rparr>"
    by (auto simp: insert_stock_def split: sum.splits)
  from presave_stock_Inr[OF p] have ok: "lot_ok s'"
    and s': "s' = s\<lparr>ds_availableStrips := fsub (ds_totalStrips s) (ds_allocatedStrips s)\<rparr>"
    by auto
  have fresh: "ds_id s' \<notin> ds_id ` set (dealerStocks d)"
    using assms(2,3) s' by (auto simp: db_inv_def list_all_iff lot_static_def)
  show ?thesis using assms(2-) ok fresh unfolding d'
    by (auto simp: db_inv_def list_all_iff lot_static_def less_Suc_eq s')
qed

lemma createOrUpdateDealerStock_eq:
  "createOrUpdateDealerStock request productId now d =
     (case find (\<lambda>s. ds_dealer s = r_dealer request \<and> ds_product s = productId
                         \<and> ds_sourceRequest s = r_id request) (dealerStocks d) of
        Some dealerStock \<Rightarrow>
          save_stock
            (dealerStock\<lparr>ds_totalStrips := fadd (ds_totalStrips dealerStock) (r_strips request),
                          ds_availableStrips :=
                            fsub (fadd (ds_totalStrips dealerStock) (r_strips request))
                                 (ds_allocatedStrips dealerStock)\<rparr>) d
      | None \<Rightarrow>
          insert_stock
            \<lparr>ds_id = nextId d, ds_dealer = r_dealer request, ds_product = productId,
             ds_totalStrips = r_strips request, ds_allocatedStrips = 0,
             ds_availableStrips = r_strips request, ds_sourceRequest = r_id request,
             ds_createdAt = now\<rparr> d)"
  by (simp add: createOrUpdateDealerStock_def saveDealerStock_def findDealerStock_def)

lemma approve_run_eq:
  "approve_run caller (request, populated) notes now d =
     (if r_status request \<noteq> Pending then (Inl StateError, d)
      else if r_paymentStatus request \<noteq> Verified then (Inl StateError, d)
      else (case populated of
         None \<Rightarrow> (Inl ServerError, d)
       | Some product \<Rightarrow>
           if p_stock product < r_strips request
           then (Inl (InsufficientStockError None), d)
           else (case save_product
                        (product\<lparr>p_stock := fsub (p_stock product) (r_strips request)\<rparr>) d of
              Inl e \<Rightarrow> (Inl e, d)
            | Inr d1 \<Rightarrow>
                (let request' = request\<lparr>r_status := Approved,
                                         r_processedBy := Some caller,
                                         r_processedAt := Some now,
                                         r_notes := js_trim (or_default notes [])\<rparr>
                 in case save_request request' d1 of
                      Inl e \<Rightarrow> (Inl e, d1)
                    | Inr d2 \<Rightarrow>
                        (case createOrUpdateDealerStock request' (p_id product) now d2 of
                           Inl e \<Rightarrow> (Inl e, d2)
                         | Inr d3 \<Rightarrow> (Inr request', d3))))))"
  by (simp add: approve_run_def approve_deduct_def approve_mark_def Let_def
      split: option.splits sum.splits)

lemma createOrUpdateDealerStock_inv:
  assumes "createOrUpdateDealerStock r p now d = Inr d'" "db_inv d" "r_id r < nextId d"
     "\<forall>x\<in>set (requests d). r_id x = r_id r \<longrightarrow> r_status x = Approved"
  shows "db_inv d'"
proof (cases "find (\<lambda>s. ds_dealer s = r_dealer r \<and> ds_product s = p
                         \<and> ds_sourceRequest s = r_id r) (dealerStocks d)")
  case None
  with assms show ?thesis
    by (auto simp: createOrUpdateDealerStock_eq elim!: insert_stock_inv)
next
  case (Some s)
  then have "s \<in> set (dealerStocks d)" by (auto simp: find_Some_iff)
  with assms(2) have "lot_static d s" "is_double (ds_allocatedStrips s)"
    by (auto simp: db_inv_def list_all_iff)
  with assms Some show ?thesis
    by (auto simp: createOrUpdateDealerStock_eq dest!: save_stock_inv)
qed

lemma approve_inv:
  assumes "db_inv d"
  shows "db_inv (snd (approve caller rid notes now d))"
proof (cases rid)
  case (Oid i)
  show ?thesis
  proof (cases "findById r_id i (requests d)")
    case None
    with Oid assms show ?thesis by (simp add: approve_def approve_fetch_def approve_run_eq)
  next
    case (Some request)
    note rq = findById_Some[OF Some]
    show ?thesis
    proof (cases "r_status request = Pending \<and> r_paymentStatus request = Verified")
      case False
      with Oid Some assms show ?thesis by (auto simp: approve_def approve_fetch_def approve_run_eq)
    next
      case True
      show ?thesis
      proof (cases "findById p_id (r_product request) (products d)")
        case None
        with Oid Some True assms show ?thesis by (simp add: approve_def approve_fetch_def approve_run_eq)
      next
        case prod: (Some product)
        show ?thesis
        proof (cases "p_stock product < r_strips request")
          case True
          with Oid Some \<open>r_status request = Pending \<and> r_paymentStatus request = Verified\<close> prod assms
          show ?thesis by (simp add: approve_def approve_fetch_def approve_run_eq)
        next
          case enough: False
          define request' where "request' = request\<lparr>r_status := Approved,
                                                  r_processedBy := Some caller,
                                                  r_processedAt := Some now,
                                                  r_notes := js_trim (or_default notes [])\<rparr>"
          show ?thesis
          proof (cases "save_product
                          (product\<lparr>p_stock := fsub (p_stock product) (r_strips request)\<rparr>) d")
            case (Inl e)
            with Oid Some True prod enough assms show ?thesis by (simp add: approve_def approve_fetch_def approve_run_eq)
          next
            case d1: (Inr d1)
            note i1 = save_product_inv[OF d1 assms]
            show ?thesis
            proof (cases "save_request request' d1")
              case (Inl e)
              with Oid Some True prod enough d1 i1 show ?thesis
                by (simp add: approve_def approve_fetch_def approve_run_eq request'_def Let_def)
            next
              case d2: (Inr d2)
              have f1: "findById r_id i (requests d1) = Some request" using Some i1 by simp
              have i2: "db_inv d2"
                by (rule save_request_inv[OF d2 _ f1]) (use i1 in \<open>simp_all add: request'_def\<close>)
              have d2eq: "d2 = d1\<lparr>requests := replaceById r_id request' (requests d1)\<rparr>"
                using d2 by (auto simp: save_request_def split: if_splits)
              have appr: "\<forall>x\<in>set (requests d2). r_id x = r_id request' \<longrightarrow> r_status x = Approved"
                unfolding d2eq by (auto simp: replaceById_def request'_def)
              have lt: "r_id request' < nextId d2"
                using rq assms i1 unfolding d2eq by (auto simp: db_inv_def list_all_iff request'_def)
              show ?thesis
              proof (cases "createOrUpdateDealerStock request' (p_id product) now d2")
                case (Inl e)
                with Oid Some True prod enough d1 d2 i2 show ?thesis
                  by (simp add: approve_def approve_fetch_def approve_run_eq request'_def Let_def)
              next
                case (Inr d3)
                from createOrUpdateDealerStock_inv[OF Inr i2 lt appr]
                show ?thesis using Oid Some True prod enough d1 d2 Inr
                  by (simp add: approve_def approve_fetch_def approve_run_eq request'_def Let_def)
              qed
            qed
          qed
        qed
      qed
    qed
  qed
qed (use assms in \<open>simp_all add: approve_def approve_fetch_def\<close>)

lemma reachable_inv: "reachable d \<Longrightarrow> db_inv d"
proof (induction rule: reachable.induct)
  case (initial d)
  then show ?case by (simp add: db_inv_def)
next
  case (catalogue d ps us)
  then show ?case by (simp add: db_inv_def lot_static_def)
qed (simp_all add: createRequest_inv uploadReceipt_inv verifyPayment_inv rejectPayment_inv
       approve_inv cancel_inv allocate_inv)

lemma reachable_request:
  assumes "reachable d" "findById r_id i (requests d) = Some request"
  shows "1 \<le> r_strips request" "r_id request = i" "request \<in> set (requests d)"
    "r_status request \<noteq> Approved \<Longrightarrow> \<forall>s\<in>set (dealerStocks d). ds_sourceRequest s \<noteq> i"
    "is_double (r_strips request)"
proof -
  note inv = reachable_inv[OF assms(1)]
  note rq = findById_Some[OF assms(2)]
  show "1 \<le> r_strips request" "r_id request = i" "request \<in> set (requests d)"
    "is_double (r_strips request)"
    using inv rq by (auto simp: db_inv_def list_all_iff)
  show "\<forall>s\<in>set (dealerStocks d). ds_sourceRequest s \<noteq> i" if "r_status request \<noteq> Approved"
    using inv rq that by (auto simp: db_inv_def list_all_iff lot_static_def)
qed

section \<open>The walk and the oldest-first plan\<close>

lemma save_stock_coherent:
  assumes "save_stock s d = Inr d'"
    "ds_availableStrips s = fsub (ds_totalStrips s) (ds_allocatedStrips s)"
  shows "d' = d\<lparr>dealerStocks := replaceById ds_id s (dealerStocks d)\<rparr>"
proof -
  from assms(1) obtain s' where p: "presave_stock s = Inr s'"
    and d': "d' = d\<lparr>dealerStocks := replaceById ds_id s' (dealerStocks d)\<rparr>"
    by (auto simp: save_stock_def split: sum.splits)
  from presave_stock_Inr[OF p] assms(2) have "s' = s" by simp
  with d' show ?thesis by simp
qed

lemma insert_allocation_Inr:
  "insert_allocation a d = Inr d' \<Longrightarrow>
     d' = d\<lparr>allocations := allocations d @ [a], nextId := nextId d + 1\<rparr> \<and> 1 \<le> sa_strips a"
  by (auto simp: insert_allocation_def split: if_splits)

text \<open>
  On whole numbers the walk computes exactly: every sum and difference it forms is a whole
  number again, so no intermediate result is rounded.
\<close>

lemma whole_lot_available:
  assumes "whole_lot l" "lot_ok l"
  shows "ds_availableStrips l = ds_totalStrips l - ds_allocatedStrips l"
    "whole (ds_availableStrips l)"
proof -
  from assms have w: "whole (ds_totalStrips l)" "whole (ds_allocatedStrips l)"
    and le: "ds_allocatedStrips l \<le> ds_totalStrips l"
    and av: "ds_availableStrips l = fsub (ds_totalStrips l) (ds_allocatedStrips l)"
    by (simp_all add: whole_lot_def lot_ok_def)
  show "ds_availableStrips l = ds_totalStrips l - ds_allocatedStrips l"
    using av whole_fsub[OF w le] by simp
  then show "whole (ds_availableStrips l)" using whole_diff[OF w le] by simp
qed

lemma whole_portion:
  assumes "whole_lot l" "lot_ok l" "whole rem"
  defines "p \<equiv> min (ds_availableStrips l) rem"
  shows "fadd (ds_allocatedStrips l) p = ds_allocatedStrips l + p"
    "fsub (ds_totalStrips l) (ds_allocatedStrips l + p)
       = ds_totalStrips l - (ds_allocatedStrips l + p)"
    "fsub rem p = rem - p" "whole (rem - p)"
proof -
  note av = whole_lot_available[OF assms(1,2)]
  from assms(1) have w: "whole (ds_totalStrips l)" "whole (ds_allocatedStrips l)"
    by (simp_all add: whole_lot_def)
  have wp: "whole p" unfolding p_def by (rule whole_min[OF av(2) assms(3)])
  have le: "p \<le> ds_availableStrips l" "p \<le> rem" by (simp_all add: p_def)
  have sum: "ds_allocatedStrips l + p \<le> ds_totalStrips l" using le(1) av(1) by simp
  moreover have "ds_totalStrips l \<le> 2 ^ 53" using w(1) by (simp add: whole_def)
  ultimately have b: "ds_allocatedStrips l + p \<le> 2 ^ 53" by simp
  show "fadd (ds_allocatedStrips l) p = ds_allocatedStrips l + p"
    by (rule whole_fadd[OF w(2) wp b])
  show "fsub (ds_totalStrips l) (ds_allocatedStrips l + p)
      = ds_totalStrips l - (ds_allocatedStrips l + p)"
    by (rule whole_fsub[OF w(1) whole_add[OF w(2) wp b] sum])
  show "fsub rem p = rem - p" by (rule whole_fsub[OF assms(3) wp le(2)])
  show "whole (rem - p)" by (rule whole_diff[OF assms(3) wp le(2)])
qed

lemma walk_success:
  assumes "walk dealer sm pr nt now ls rem allocs upd d = (Inr (rem', allocs', upd'), d')"
    and "whole rem" and "\<forall>l\<in>set ls. whole_lot l \<and> lot_ok l"
  shows "\<exists>new. allocs' = allocs @ new \<and> allocations d' = allocations d @ new
           \<and> map (\<lambda>a. (sa_dealerStock a, sa_strips a)) new = fifo_portions rem ls
           \<and> rem' = rem - sum_list (map sa_strips new) \<and> 0 \<le> rem'
           \<and> dealerStocks d' = map (drain_fun rem ls) (dealerStocks d)
           \<and> products d' = products d \<and> requests d' = requests d \<and> users d' = users d"
  using assms
proof (induction ls arbitrary: rem allocs upd d)
  case Nil
  then show ?case by (simp add: whole_def)
next
  case (Cons stock rest)
  show ?case
  proof (cases "rem = 0")
    case True
    with Cons.prems show ?thesis by simp
  next
    case False
    from Cons.prems(2) have rem0: "0 \<le> rem" by (simp add: whole_def)
    with False have pos: "0 < rem" by simp
    from Cons.prems(3) have lot: "whole_lot stock" "lot_ok stock"
      and rest: "\<forall>l\<in>set rest. whole_lot l \<and> lot_ok l" by simp_all
    show ?thesis
    proof (cases "0 < ds_availableStrips stock")
      case False
      with pos Cons.prems have "walk dealer sm pr nt now rest rem allocs upd d = (Inr (rem', allocs', upd'), d')"
        by simp
      from Cons.IH[OF this Cons.prems(2) rest] False pos show ?thesis by simp
    next
      case True
      define p where "p = min (ds_availableStrips stock) rem"
      define a where "a = \<lparr>sa_id = nextId d, sa_dealer = dealer, sa_salesman = sm,
                           sa_product = pr, sa_strips = p,
                           sa_dealerStock = ds_id stock, sa_notes = nt, sa_createdAt = now\<rparr>"
      define stock' where "stock' = stock\<lparr>ds_allocatedStrips := fadd (ds_allocatedStrips stock) p,
                                     ds_availableStrips := fsub (ds_totalStrips stock)
                                        (fadd (ds_allocatedStrips stock) p)\<rparr>"
      have p: "0 < p" "p \<le> rem" using pos True by (simp_all add: p_def)
      note ex = whole_portion[OF lot Cons.prems(2), folded p_def]
      have stock'_eq: "stock' = stock\<lparr>ds_allocatedStrips := ds_allocatedStrips stock + p,
                                   ds_availableStrips := ds_totalStrips stock
                                      - (ds_allocatedStrips stock + p)\<rparr>"
        by (simp add: stock'_def ex)
      from Cons.prems(1) pos True obtain d1 where d1: "insert_allocation a d = Inr d1"
        by (cases "insert_allocation a d") (simp_all add: Let_def a_def p_def)
      from Cons.prems(1) pos True d1 obtain d2 where d2: "save_stock stock' d1 = Inr d2"
        by (cases "save_stock stock' d1") (simp_all add: Let_def a_def p_def stock'_def)
      have "walk dealer sm pr nt now rest (fsub rem p) (allocs @ [a]) (upd @ [stock']) d2
                   = (Inr (rem', allocs', upd'), d')"
        using Cons.prems(1) pos True d1 d2 by (simp add: Let_def a_def p_def stock'_def)
      then have rec: "walk dealer sm pr nt now rest (rem - p) (allocs @ [a]) (upd @ [stock']) d2
                   = (Inr (rem', allocs', upd'), d')"
        by (simp only: ex)
      have e1: "d1 = d\<lparr>allocations := allocations d @ [a], nextId := nextId d + 1\<rparr>"
        using insert_allocation_Inr[OF d1] by simp
      have e2: "d2 = d1\<lparr>dealerStocks := replaceById ds_id stock' (dealerStocks d1)\<rparr>"
        by (rule save_stock_coherent[OF d2]) (simp add: stock'_def)
      from Cons.IH[OF rec ex(4) rest] obtain new where
        new: "allocs' = (allocs @ [a]) @ new" "allocations d' = allocations d2 @ new"
          "map (\<lambda>a. (sa_dealerStock a, sa_strips a)) new = fifo_portions (rem - p) rest"
          "rem' = rem - p - sum_list (map sa_strips new)" "0 \<le> rem'"
          "dealerStocks d' = map (drain_fun (rem - p) rest) (dealerStocks d2)"
          "products d' = products d2" "requests d' = requests d2" "users d' = users d2"
        by auto
      have ds: "dealerStocks d' = map (drain_fun rem (stock # rest)) (dealerStocks d)"
        using new(6) pos True unfolding e2 e1
        by (simp add: replaceById_def stock'_eq) (simp add: p_def)
      show ?thesis
        apply (rule exI[of _ "a # new"])
        using new(1-5,7-) ds pos True unfolding e2 e1
        by (simp add: a_def p_def)
    qed
  qed
qed

lemma drain_fun_fresh: "ds_id x \<notin> ds_id ` set ls \<Longrightarrow> drain_fun rem ls x = x"
  by (induction ls arbitrary: rem) auto

lemma drain_fun_key:
  assumes "inj_on ds_id (set stocks)" "set ls \<subseteq> set stocks" "y \<in> set stocks" "lot_key x = lot_key y"
  shows "lot_key (drain_fun rem ls x) = lot_key x"
  using assms(2,4)
proof (induction ls arbitrary: rem x)
  case Nil
  then show ?case by simp
next
  case (Cons l ls)
  have l: "l \<in> set stocks" "set ls \<subseteq> set stocks" using Cons.prems(1) by auto
  show ?case
  proof (cases "0 < rem \<and> 0 < ds_availableStrips l")
    case False
    with Cons.IH[OF l(2) Cons.prems(2)] show ?thesis by auto
  next
    case True
    define l' where "l' = l\<lparr>ds_allocatedStrips := ds_allocatedStrips l + min (ds_availableStrips l) rem,
                      ds_availableStrips := ds_totalStrips l
                         - (ds_allocatedStrips l + min (ds_availableStrips l) rem)\<rparr>"
    show ?thesis
    proof (cases "ds_id x = ds_id l")
      case False
      with True Cons.IH[OF l(2) Cons.prems(2)] show ?thesis by simp
    next
      case same: True
      with Cons.prems(2) have "ds_id y = ds_id l" by (simp add: lot_key_def)
      with assms(1,3) l(1) have "y = l" by (auto dest: inj_onD)
      then have k: "lot_key l' = lot_key y" by (simp add: lot_key_def l'_def)
      from Cons.IH[OF l(2) k] k Cons.prems(2) True same show ?thesis
        by (simp add: l'_def)
    qed
  qed
qed

lemma drain_fun_positional:
  assumes "distinct (map ds_id ls)" "0 \<le> rem"
    "\<forall>l\<in>set ls. ds_availableStrips l = ds_totalStrips l - ds_allocatedStrips l"
  shows "map (drain_fun rem ls) ls = fifo_drain rem ls"
  using assms
proof (induction ls arbitrary: rem)
  case Nil
  then show ?case by simp
next
  case (Cons l ls)
  show ?case
  proof (cases "rem = 0")
    case True
    then show ?thesis by (simp add: map_idI)
  next
    case False
    with Cons.prems(2) have pos: "0 < rem" by simp
    have fresh: "ds_id l \<notin> ds_id ` set ls"
      using Cons.prems(1) by simp
    then have others: "\<forall>x\<in>set ls. ds_id x \<noteq> ds_id l"
      by (metis imageI)
    show ?thesis
    proof (cases "0 < ds_availableStrips l")
      case False
      have "map (drain_fun rem ls) ls = fifo_drain rem ls"
        using Cons.IH[of rem] Cons.prems by simp
      with False pos fresh show ?thesis by (simp add: drain_fun_fresh)
    next
      case True
      let ?p = "min (ds_availableStrips l) rem"
      have "map (drain_fun (rem - ?p) ls) ls = fifo_drain (rem - ?p) ls"
        using Cons.IH[of "rem - ?p"] Cons.prems pos by simp
      moreover have "map (\<lambda>x. drain_fun (rem - ?p) ls (if ds_id x = ds_id l then
               l\<lparr>ds_allocatedStrips := ds_allocatedStrips l + ?p,
                  ds_availableStrips := ds_totalStrips l - (ds_allocatedStrips l + ?p)\<rparr> else x)) ls
            = map (drain_fun (rem - ?p) ls) ls"
        using others by (intro map_cong) auto
      moreover have "ds_totalStrips l - (ds_allocatedStrips l + ?p) = ds_availableStrips l - ?p"
        using Cons.prems(3) by simp
      ultimately show ?thesis using True pos fresh
        by (simp add: drain_fun_fresh)
    qed
  qed
qed

lemma insort_key_map_commute:
  assumes "k (g x) = k x" "\<forall>y\<in>set xs. k (g y) = k y"
  shows "insort_key k (g x) (map g xs) = map g (insort_key k x xs)"
  using assms by (induction xs) auto

lemma sort_key_map_commute:
  assumes "\<forall>y\<in>set xs. k (g y) = k y"
  shows "sort_key k (map g xs) = map g (sort_key k xs)"
  using assms
proof (induction xs)
  case Nil
  then show ?case by simp
next
  case (Cons x xs)
  then have "sort_key k (map g xs) = map g (sort_key k xs)" by simp
  moreover have "insort_key k (g x) (map g (sort_key k xs)) = map g (insort_key k x (sort_key k xs))"
    using Cons.prems by (intro insort_key_map_commute) auto
  ultimately show ?case by simp
qed

lemma filter_map_commute:
  assumes "\<forall>y\<in>set xs. P (g y) = P y"
  shows "filter P (map g xs) = map g (filter P xs)"
  using assms by (induction xs) auto

lemma findStocks_map:
  assumes "\<forall>s\<in>set (dealerStocks d). lot_key (g s) = lot_key s"
    and "dealerStocks d' = map g (dealerStocks d)"
  shows "findStocks dealer pr d' = map g (findStocks dealer pr d)"
proof -
  have k: "\<forall>s\<in>set (dealerStocks d). ds_dealer (g s) = ds_dealer s \<and> ds_product (g s) = ds_product s
             \<and> ds_createdAt (g s) = ds_createdAt s"
    using assms(1) by (auto simp: lot_key_def)
  have "filter (\<lambda>s. ds_dealer s = dealer \<and> ds_product s = pr) (map g (dealerStocks d))
      = map g (filter (\<lambda>s. ds_dealer s = dealer \<and> ds_product s = pr) (dealerStocks d))"
    using k by (intro filter_map_commute) auto
  moreover have "sort_key ds_createdAt (map g (filter (\<lambda>s. ds_dealer s = dealer \<and> ds_product s = pr) (dealerStocks d)))
      = map g (sort_key ds_createdAt (filter (\<lambda>s. ds_dealer s = dealer \<and> ds_product s = pr) (dealerStocks d)))"
    using k by (intro sort_key_map_commute) auto
  ultimately show ?thesis by (simp add: findStocks_def assms(2))
qed

lemma findStocks_distinct:
  "distinct (map ds_id (dealerStocks d)) \<Longrightarrow> distinct (map ds_id (findStocks dealer pr d))"
  by (simp add: findStocks_def distinct_map inj_on_def)

lemma fifo_drain_zero [simp]: "fifo_drain 0 ls = ls"
  by (cases ls) simp_all

lemma fifo_drain_length [simp]: "length (fifo_drain rem ls) = length ls"
  by (induction ls arbitrary: rem) auto

lemma fifo_drain_oldest_first:
  assumes "\<forall>l\<in>set ls. 0 \<le> ds_availableStrips l" "0 \<le> rem" "i < j" "j < length ls"
    "ds_allocatedStrips (fifo_drain rem ls ! j) \<noteq> ds_allocatedStrips (ls ! j)"
  shows "ds_availableStrips (fifo_drain rem ls ! i) = 0"
  using assms
proof (induction ls arbitrary: rem i j)
  case Nil
  then show ?case by simp
next
  case (Cons l ls)
  from Cons.prems(3) obtain j' where j: "j = Suc j'" by (cases j) auto
  from Cons.prems(5) have nz: "rem \<noteq> 0" by (cases "rem = 0") auto
  with Cons.prems(2) have pos: "0 < rem" by simp
  have ok: "0 \<le> ds_availableStrips l" "\<forall>l\<in>set ls. 0 \<le> ds_availableStrips l"
    using Cons.prems(1) by auto
  show ?case
  proof (cases "0 < ds_availableStrips l")
    case False
    with ok(1) have z: "ds_availableStrips l = 0" by simp
    have ch: "ds_allocatedStrips (fifo_drain rem ls ! j') \<noteq> ds_allocatedStrips (ls ! j')"
      using Cons.prems(5) False nz j by simp
    show ?thesis
    proof (cases i)
      case 0
      with False nz z show ?thesis by simp
    next
      case (Suc i')
      with Cons.IH[OF ok(2) Cons.prems(2) _ _ ch, of i'] Cons.prems(3,4) j False nz
      show ?thesis by simp
    qed
  next
    case True
    let ?p = "min (ds_availableStrips l) rem"
    have ch: "ds_allocatedStrips (fifo_drain (rem - ?p) ls ! j') \<noteq> ds_allocatedStrips (ls ! j')"
      using Cons.prems(5) True nz j by simp
    then have "rem - ?p \<noteq> 0" by (cases "rem - ?p = 0") auto
    then have full: "?p = ds_availableStrips l" by (simp add: min_def split: if_splits)
    show ?thesis
    proof (cases i)
      case 0
      with True nz full show ?thesis by simp
    next
      case (Suc i')
      have "0 \<le> rem - ?p" by simp
      from Cons.IH[OF ok(2) this _ _ ch, of i'] Cons.prems(3,4) j Suc True nz
      show ?thesis by simp
    qed
  qed
qed

lemma allocate_success:
  assumes "allocate caller (Oid sid) (Oid pid) (JNum n) notes now d = (Inr res, d')"
  shows "1 \<le> n \<and> (\<exists>rem' allocs' upd'.
           walk caller sid pid (js_trim (or_default notes [])) now (findStocks caller pid d) n [] [] d
             = (Inr (rem', allocs', upd'), d') \<and> rem' \<le> 0 \<and> allocs' \<noteq> [] \<and> res = (hd allocs', n))"
  using assms
  by (auto simp: allocate_def split: if_splits option.splits prod.splits sum.splits list.splits)

lemma walk_error: "fst (walk dealer sm pr nt now ls rem allocs upd d) = Inl e \<Longrightarrow> e = ServerError"
proof (induction ls arbitrary: rem allocs upd d)
  case Nil
  then show ?case by simp
next
  case (Cons stock rest)
  then show ?case
    by (auto simp: Let_def insert_allocation_def save_stock_def presave_stock_def
        split: if_splits sum.splits)
qed

lemma rollback_error: "fst (rollback amount upd d) = Inl e \<Longrightarrow> e = ServerError"
proof (induction upd arbitrary: d)
  case Nil
  then show ?case by simp
next
  case (Cons stock rest)
  then show ?case
    by (auto simp: Let_def save_stock_def presave_stock_def split: if_splits sum.splits)
qed

lemma allocate_not_validation:
  assumes "1 \<le> n"
  shows "fst (allocate caller (Oid sid) (Oid pid) (JNum n) notes now d) \<noteq> Inl ValidationError"
proof
  assume a: "fst (allocate caller (Oid sid) (Oid pid) (JNum n) notes now d) = Inl ValidationError"
  have n: "\<not> n < 1" "n \<noteq> 0" using assms by auto
  show False
  proof (cases "find (\<lambda>u. u_id u = sid \<and> u_createdBy u = Some caller
                                  \<and> u_role u = ''salesman'') (users d)")
    case None
    with a n show ?thesis by (simp add: allocate_def)
  next
    case (Some sm)
    show ?thesis
    proof (cases "findById p_id pid (products d)")
      case None
      with a n Some show ?thesis by (simp add: allocate_def)
    next
      case prod: (Some product)
      obtain res d1 where w: "walk caller sid pid (js_trim (or_default notes [])) now
                                (findStocks caller pid d) n [] [] d = (res, d1)"
        by (cases "walk caller sid pid (js_trim (or_default notes [])) now
                                (findStocks caller pid d) n [] [] d")
      show ?thesis
      proof (cases res)
        case (Inl e)
        with walk_error[of caller sid pid "js_trim (or_default notes [])" now
               "findStocks caller pid d" n "[]" "[]" d e] w
        have "e = ServerError" by simp
        with a n Some prod w Inl show ?thesis by (simp add: allocate_def)
      next
        case (Inr t)
        obtain remaining allocs updated where t: "t = (remaining, allocs, updated)" by (cases t)
        obtain r2 d2 where rb: "rollback (fsub n remaining) updated (deleteMany (map sa_id allocs) d1) = (r2, d2)"
          by (cases "rollback (fsub n remaining) updated (deleteMany (map sa_id allocs) d1)")
        have "r2 = Inl e \<Longrightarrow> e = ServerError" for e
          using rollback_error[of "fsub n remaining" updated "deleteMany (map sa_id allocs) d1" e] rb
          by simp
        with a n Some prod w Inr t rb show ?thesis
          by (cases r2; cases allocs) (auto simp: allocate_def split: if_splits)
      qed
    qed
  qed
qed

section \<open>The worked example, evaluated\<close>

lemma fl_numeral [simp]: "(numeral k :: rat) \<le> 2 ^ 53 \<Longrightarrow> fl (numeral k) = numeral k"
  by (rule whole_fl) simp

lemma fl_neg_numeral [simp]:
  "(numeral k :: rat) \<le> 2 ^ 53 \<Longrightarrow> fl (- numeral k) = - numeral k"
  by (simp add: fl_minus)

lemma fl_one [simp]: "fl 1 = 1"
  using fl_of_int[of 1] by simp

lemma fl_half [simp]:
  assumes "(numeral k :: rat) < 2 ^ 53"
  shows "fl (numeral k / 2) = numeral k / 2"
proof -
  have "(of_int (numeral k) :: rat) < of_int (2 ^ 53)" using assms by simp
  then have "(numeral k :: int) < 2 ^ 53" by (simp only: of_int_less_iff)
  moreover have "(numeral k / 2 :: rat) = of_int (numeral k) * 2 powi (- 1)"
    by (simp add: power_int_minus)
  ultimately show ?thesis by (intro fl_exact_pos[where m = "numeral k" and k = "- 1"]) simp_all
qed

lemma is_double_numeral [simp]: "(numeral k :: rat) \<le> 2 ^ 53 \<Longrightarrow> is_double (numeral k)"
  by (simp add: is_double_def)

lemmas eval_defs = createRequest_def uploadReceipt_def verifyPayment_def rejectPayment_def
  approve_def approve_fetch_def approve_run_eq cancel_def allocate_def
  createOrUpdateDealerStock_eq fadd_def fsub_def
  findById_def replaceById_def save_product_def insert_request_def save_request_def
  presave_stock_def insert_stock_def save_stock_def insert_allocation_def deleteMany_def
  findStocks_def js_trim_def or_default_def is_space_def Let_def

lemma demo_db_eval:
  "demo_db =
   \<lparr>products = [\<lparr>p_id = 1, p_stock = 65\<rparr>],
    requests =
      [\<lparr>r_id = 10, r_dealer = 2, r_product = 1, r_strips = 10,
          r_status = Approved, r_paymentStatus = Verified,
          r_receiptImage = Some ''receipt.png'',
          r_paymentVerifiedBy = Some 9, r_paymentVerifiedAt = Some 3,
          r_paymentNotes = [], r_requestedAt = 1, r_processedBy = Some 9,
          r_processedAt = Some 4, r_notes = []\<rparr>,
       \<lparr>r_id = 12, r_dealer = 2, r_product = 1, r_strips = 25,
          r_status = Approved, r_paymentStatus = Verified,
          r_receiptImage = Some ''receipt.png'',
          r_paymentVerifiedBy = Some 9, r_paymentVerifiedAt = Some 7,
          r_paymentNotes = [], r_requestedAt = 5, r_processedBy = Some 9,
          r_processedAt = Some 8, r_notes = []\<rparr>,
       \<lparr>r_id = 14, r_dealer = 2, r_product = 1, r_strips = 5,
          r_status = Pending, r_paymentStatus = PaymentPending,
          r_receiptImage = None, r_paymentVerifiedBy = None,
          r_paymentVerifiedAt = None, r_paymentNotes = [],
          r_requestedAt = 9, r_processedBy = None, r_processedAt = None,
          r_notes = []\<rparr>],
    dealerStocks =
      [\<lparr>ds_id = 11, ds_dealer = 2, ds_product = 1, ds_totalStrips = 10,
          ds_allocatedStrips = 0, ds_availableStrips = 10,
          ds_sourceRequest = 10, ds_createdAt = 4\<rparr>,
       \<lparr>ds_id = 13, ds_dealer = 2, ds_product = 1, ds_totalStrips = 25,
          ds_allocatedStrips = 0, ds_availableStrips = 25,
          ds_sourceRequest = 12, ds_createdAt = 8\<rparr>],
    allocations = [],
    users = [\<lparr>u_id = 3, u_role = ''salesman'', u_createdBy = Some 2\<rparr>],
    nextId = 15\<rparr>"
  by (simp add: demo_db_def lifecycle_def shop0_def eval_defs)

lemma demo_reachable: "reachable demo_db"
  unfolding demo_db_def lifecycle_def
  by (intro reachable.createRequest reachable.approve reachable.verifyPayment reachable.uploadReceipt
        reachable.initial) (simp_all add: shop0_def)

lemma demo_verified_reachable: "reachable demo_verified_db"
  unfolding demo_verified_db_def
  by (intro reachable.verifyPayment reachable.uploadReceipt demo_reachable)

lemma demo_verified_db_eval:
  "demo_verified_db =
   demo_db\<lparr>requests :=
      [\<lparr>r_id = 10, r_dealer = 2, r_product = 1, r_strips = 10,
          r_status = Approved, r_paymentStatus = Verified,
          r_receiptImage = Some ''receipt.png'',
          r_paymentVerifiedBy = Some 9, r_paymentVerifiedAt = Some 3,
          r_paymentNotes = [], r_requestedAt = 1, r_processedBy = Some 9,
          r_processedAt = Some 4, r_notes = []\<rparr>,
       \<lparr>r_id = 12, r_dealer = 2, r_product = 1, r_strips = 25,
          r_status = Approved, r_paymentStatus = Verified,
          r_receiptImage = Some ''receipt.png'',
          r_paymentVerifiedBy = Some 9, r_paymentVerifiedAt = Some 7,
          r_paymentNotes = [], r_requestedAt = 5, r_processedBy = Some 9,
          r_processedAt = Some 8, r_notes = []\<rparr>,
       \<lparr>r_id = 14, r_dealer = 2, r_product = 1, r_strips = 5,
          r_status = Pending, r_paymentStatus = Verified,
          r_receiptImage = Some ''receipt.png'', r_paymentVerifiedBy = Some 9,
          r_paymentVerifiedAt = Some 11, r_paymentNotes = [],
          r_requestedAt = 9, r_processedBy = None, r_processedAt = None,
          r_notes = []\<rparr>]\<rparr>"
  by (simp add: demo_verified_db_def demo_db_eval eval_defs)

lemma fraction_db_eval:
  "fraction_db =
   \<lparr>products = [\<lparr>p_id = 1, p_stock = 195 / 2\<rparr>],
    requests =
      [\<lparr>r_id = 10, r_dealer = 2, r_product = 1, r_strips = 5 / 2,
          r_status = Approved, r_paymentStatus = Verified,
          r_receiptImage = Some ''receipt.png'',
          r_paymentVerifiedBy = Some 9, r_paymentVerifiedAt = Some 3,
          r_paymentNotes = [], r_requestedAt = 1, r_processedBy = Some 9,
          r_processedAt = Some 4, r_notes = []\<rparr>],
    dealerStocks =
      [\<lparr>ds_id = 11, ds_dealer = 2, ds_product = 1, ds_totalStrips = 5 / 2,
          ds_allocatedStrips = 0, ds_availableStrips = 5 / 2,
          ds_sourceRequest = 10, ds_createdAt = 4\<rparr>],
    allocations = [],
    users = [\<lparr>u_id = 3, u_role = ''salesman'', u_createdBy = Some 2\<rparr>],
    nextId = 12\<rparr>"
  by (simp add: fraction_db_def lifecycle_def shop0_def eval_defs)

lemma allocate_success_shape:
  assumes "allocate caller salesmanId productId strips notes now d = (Inr res, d')"
  shows "\<exists>sid pid n. salesmanId = Oid sid \<and> productId = Oid pid \<and> strips = JNum n"
  using assms
  by (cases salesmanId; cases productId; cases strips) (auto simp: allocate_def split: if_splits)


lemma fl_drift:
  "fl (17 / 5) = 7656119366529843 / 2251799813685248"
  "fl (13 / 10) = 5854679515581645 / 4503599627370496"
  by code_simp+

lemma drift_db_eval:
  "drift_db =
   \<lparr>products = [\<lparr>p_id = 1, p_stock = 3222888483337011 / 35184372088832\<rparr>],
    requests =
      [\<lparr>r_id = 10, r_dealer = 2, r_product = 1,
          r_strips = 7656119366529843 / 2251799813685248,
          r_status = Approved, r_paymentStatus = Verified,
          r_receiptImage = Some ''receipt.png'',
          r_paymentVerifiedBy = Some 9, r_paymentVerifiedAt = Some 3,
          r_paymentNotes = [], r_requestedAt = 1, r_processedBy = Some 9,
          r_processedAt = Some 4, r_notes = []\<rparr>,
       \<lparr>r_id = 13, r_dealer = 2, r_product = 1, r_strips = 5,
          r_status = Approved, r_paymentStatus = Verified,
          r_receiptImage = Some ''receipt.png'',
          r_paymentVerifiedBy = Some 9, r_paymentVerifiedAt = Some 8,
          r_paymentNotes = [], r_requestedAt = 6, r_processedBy = Some 9,
          r_processedAt = Some 9, r_notes = []\<rparr>],
    dealerStocks =
      [\<lparr>ds_id = 11, ds_dealer = 2, ds_product = 1,
          ds_totalStrips = 7656119366529843 / 2251799813685248,
          ds_allocatedStrips = 5854679515581645 / 4503599627370496,
          ds_availableStrips = 1182194902184755 / 562949953421312,
          ds_sourceRequest = 10, ds_createdAt = 4\<rparr>,
       \<lparr>ds_id = 14, ds_dealer = 2, ds_product = 1, ds_totalStrips = 5,
          ds_allocatedStrips = 0, ds_availableStrips = 5,
          ds_sourceRequest = 13, ds_createdAt = 9\<rparr>],
    allocations =
      [\<lparr>sa_id = 12, sa_dealer = 2, sa_salesman = 3, sa_product = 1,
          sa_strips = 5854679515581645 / 4503599627370496,
          sa_dealerStock = 11, sa_notes = [], sa_createdAt = 5\<rparr>],
    users = [\<lparr>u_id = 3, u_role = ''salesman'', u_createdBy = Some 2\<rparr>],
    nextId = 15\<rparr>"
  by code_simp

lemma drift_allocate_eval:
  "allocate 2 (Oid 3) (Oid 1) (JNum 4) None 10 drift_db =
   (Inr (\<lparr>sa_id = 15, sa_dealer = 2, sa_salesman = 3, sa_product = 1,
           sa_strips = 1182194902184755 / 562949953421312,
           sa_dealerStock = 11, sa_notes = [], sa_createdAt = 10\<rparr>, 4),
    drift_db\<lparr>dealerStocks :=
      [\<lparr>ds_id = 11, ds_dealer = 2, ds_product = 1,
          ds_totalStrips = 7656119366529843 / 2251799813685248,
          ds_allocatedStrips = 3828059683264921 / 1125899906842624,
          ds_availableStrips = 1 / 2251799813685248, ds_sourceRequest = 10,
          ds_createdAt = 4\<rparr>,
       \<lparr>ds_id = 14, ds_dealer = 2, ds_product = 1, ds_totalStrips = 5,
          ds_allocatedStrips = 1069604911500493 / 562949953421312,
          ds_availableStrips = 1745144855606067 / 562949953421312,
          ds_sourceRequest = 13, ds_createdAt = 9\<rparr>],
     allocations :=
      [\<lparr>sa_id = 12, sa_dealer = 2, sa_salesman = 3, sa_product = 1,
          sa_strips = 5854679515581645 / 4503599627370496,
          sa_dealerStock = 11, sa_notes = [], sa_createdAt = 5\<rparr>,
       \<lparr>sa_id = 15, sa_dealer = 2, sa_salesman = 3, sa_product = 1,
          sa_strips = 1182194902184755 / 562949953421312,
          sa_dealerStock = 11, sa_notes = [], sa_createdAt = 10\<rparr>,
       \<lparr>sa_id = 16, sa_dealer = 2, sa_salesman = 3, sa_product = 1,
          sa_strips = 1069604911500493 / 562949953421312,
          sa_dealerStock = 14, sa_notes = [], sa_createdAt = 10\<rparr>],
     nextId := 17\<rparr>)"
  unfolding drift_db_eval by code_simp

lemma drift_allocate_again_eval:
  "fst (allocate 2 (Oid 3) (Oid 1) (JNum 1) None 11
         (snd (allocate 2 (Oid 3) (Oid 1) (JNum 4) None 10 drift_db))) = Inl ServerError"
  unfolding drift_allocate_eval snd_conv drift_db_eval by code_simp
section \<open>The claims\<close>

subsection \<open>Allocation: rollback and the allocation sum\<close>

text \<open>
  Claim C1 says that an allocation call that exhausts the lots deletes the records it
  created, restores every touched lot and fails with InsufficientStockError reporting the
  units that were available. The rollback loop subtracts the whole amount that was placed,
  \<open>strips - remainingToAllocate\<close>, from every touched lot, not the portion taken from that
  lot. With the two lots of \<open>demo_db\<close> (10 and 25 strips available) and 1000 strips
  requested, 35 strips are placed; the rollback sets the first lot's \<open>allocatedStrips\<close> to
  \<open>10 - 35\<close>, its save is refused by the \<open>min: 0\<close> validator, and the handler answers
  with the server error: the records are deleted, both lots stay fully allocated. With the
  single lot of \<open>fraction_db\<close> the same call is rolled back as the claim says.
\<close>

theorem rollback_two_lots_not_restored:
  "fst (allocate 2 (Oid 3) (Oid 1) (JNum 1000) None 20 demo_db) = Inl ServerError
   \<and> allocations (snd (allocate 2 (Oid 3) (Oid 1) (JNum 1000) None 20 demo_db)) = []
   \<and> map (\<lambda>s. (ds_id s, ds_allocatedStrips s, ds_availableStrips s)) (dealerStocks demo_db)
        = [(11, 0, 10), (13, 0, 25)]
   \<and> map (\<lambda>s. (ds_id s, ds_allocatedStrips s, ds_availableStrips s))
        (dealerStocks (snd (allocate 2 (Oid 3) (Oid 1) (JNum 1000) None 20 demo_db)))
        = [(11, 10, 0), (13, 25, 0)]
   \<and> allocate 2 (Oid 3) (Oid 1) (JNum 1000) None 9 fraction_db
        = (Inl (InsufficientStockError (Some (5 / 2))), fraction_db\<lparr>nextId := 13\<rparr>)"
  by (simp add: demo_db_eval fraction_db_eval eval_defs)

text \<open>
  Claim C2 says that for every lot, after any sequence of allocation calls, the strips of
  the allocation records that reference the lot add up to the lot's \<open>allocatedStrips\<close>.
  The state after the failed call above is reachable, it has no allocation record, and its
  lots have 10 and 25 strips allocated.
\<close>

theorem allocated_sum_broken_after_failed_call:
  "reachable (snd (allocate 2 (Oid 3) (Oid 1) (JNum 1000) None 20 demo_db))
   \<and> allocated_sum 11 (snd (allocate 2 (Oid 3) (Oid 1) (JNum 1000) None 20 demo_db)) = 0
   \<and> allocated_sum 13 (snd (allocate 2 (Oid 3) (Oid 1) (JNum 1000) None 20 demo_db)) = 0
   \<and> map (\<lambda>s. (ds_id s, ds_allocatedStrips s))
        (dealerStocks (snd (allocate 2 (Oid 3) (Oid 1) (JNum 1000) None 20 demo_db)))
        = [(11, 10), (13, 25)]"
proof -
  have "reachable (snd (allocate 2 (Oid 3) (Oid 1) (JNum 1000) None 20 demo_db))"
    by (rule reachable.allocate[OF demo_reachable]) simp
  moreover have "allocations (snd (allocate 2 (Oid 3) (Oid 1) (JNum 1000) None 20 demo_db)) = []"
    by (simp add: demo_db_eval eval_defs)
  moreover have "map (\<lambda>s. (ds_id s, ds_allocatedStrips s))
        (dealerStocks (snd (allocate 2 (Oid 3) (Oid 1) (JNum 1000) None 20 demo_db)))
        = [(11, 10), (13, 25)]"
    by (simp add: demo_db_eval eval_defs)
  ultimately show ?thesis by (simp add: allocated_sum_def)
qed

subsection \<open>Approval and the lot it creates\<close>

text \<open>
  Claim C3 says that the lot-creation step of approval fails with DuplicateError when a lot
  already exists for the source request, creating and modifying no lot. In \<open>retry_db\<close> the
  third request (14) is pending with its payment verified and already has a lot of 5
  strips: the step succeeds and the lot has 10 strips afterwards, and so does the whole
  approval, which also takes 5 more strips from central stock.
\<close>

theorem duplicate_lot_counterexample:
  "map (\<lambda>s. (ds_id s, ds_sourceRequest s, ds_totalStrips s, ds_availableStrips s))
       (dealerStocks retry_db) = [(11, 10, 10, 10), (13, 12, 25, 25), (15, 14, 5, 5)]
   \<and> map_sum id dealerStocks
       (createOrUpdateDealerStock
          \<lparr>r_id = 14, r_dealer = 2, r_product = 1, r_strips = 5, r_status = Approved,
            r_paymentStatus = Verified, r_receiptImage = Some ''receipt.png'',
            r_paymentVerifiedBy = Some 9, r_paymentVerifiedAt = Some 11, r_paymentNotes = [],
            r_requestedAt = 9, r_processedBy = Some 9, r_processedAt = Some 13, r_notes = []\<rparr>
          1 13 retry_db)
       = Inr [\<lparr>ds_id = 11, ds_dealer = 2, ds_product = 1, ds_totalStrips = 10,
                ds_allocatedStrips = 0, ds_availableStrips = 10,
                ds_sourceRequest = 10, ds_createdAt = 4\<rparr>,
              \<lparr>ds_id = 13, ds_dealer = 2, ds_product = 1, ds_totalStrips = 25,
                ds_allocatedStrips = 0, ds_availableStrips = 25,
                ds_sourceRequest = 12, ds_createdAt = 8\<rparr>,
              \<lparr>ds_id = 15, ds_dealer = 2, ds_product = 1, ds_totalStrips = 10,
                ds_allocatedStrips = 0, ds_availableStrips = 10,
                ds_sourceRequest = 14, ds_createdAt = 12\<rparr>]
   \<and> map_sum id r_status (fst (approve 9 (Oid 14) None 13 retry_db)) = Inr Approved
   \<and> map (\<lambda>s. (ds_id s, ds_sourceRequest s, ds_totalStrips s, ds_availableStrips s))
       (dealerStocks (snd (approve 9 (Oid 14) None 13 retry_db)))
       = [(11, 10, 10, 10), (13, 12, 25, 25), (15, 14, 10, 10)]
   \<and> products (snd (approve 9 (Oid 14) None 13 retry_db)) = [\<lparr>p_id = 1, p_stock = 60\<rparr>]"
  by (simp add: retry_db_def demo_verified_db_eval demo_db_eval eval_defs)

text \<open>
  Claim C3 as amended. The lot-creation step has no duplicate error: when a lot of the
  request's dealer, of the given product and with the request as its source exists, the step
  adds the request's strips to that lot's \<open>totalStrips\<close>, recomputes \<open>availableStrips\<close>
  and creates no lot. What stops a retried approval is the status check: in every reachable
  state a request that has a lot is approved, so approving it again fails with StateError
  and changes nothing.
\<close>

theorem existing_lot_is_topped_up:
  assumes "reachable d"
  shows "(\<forall>request productId now lot.
            find (\<lambda>s. ds_dealer s = r_dealer request \<and> ds_product s = productId
                         \<and> ds_sourceRequest s = r_id request) (dealerStocks d) = Some lot
            \<and> 0 \<le> r_strips request
            \<longrightarrow> createOrUpdateDealerStock request productId now d =
                  Inr (d\<lparr>dealerStocks := replaceById ds_id
                        (lot\<lparr>ds_totalStrips := fadd (ds_totalStrips lot) (r_strips request),
                             ds_availableStrips := fsub (fadd (ds_totalStrips lot) (r_strips request))
                                                        (ds_allocatedStrips lot)\<rparr>)
                        (dealerStocks d)\<rparr>))
       \<and> (\<forall>i request caller notes now.
            findById r_id i (requests d) = Some request
            \<and> (\<exists>s\<in>set (dealerStocks d). ds_sourceRequest s = i)
            \<longrightarrow> approve caller (Oid i) notes now d = (Inl StateError, d))"
proof (intro conjI allI impI)
  fix request :: DealerRequest and productId now and lot :: DealerStock
  assume a: "find (\<lambda>s. ds_dealer s = r_dealer request \<and> ds_product s = productId
                         \<and> ds_sourceRequest s = r_id request) (dealerStocks d) = Some lot
            \<and> 0 \<le> r_strips request"
  then have "lot \<in> set (dealerStocks d)" by (auto simp: find_Some_iff)
  with reachable_inv[OF assms] have ok: "lot_ok lot" and dbl: "is_double (ds_allocatedStrips lot)"
    by (auto simp: db_inv_def list_all_iff)
  from ok a have "ds_allocatedStrips lot \<le> ds_totalStrips lot + r_strips request"
    by (simp add: lot_ok_def)
  from fadd_ge_double[OF dbl this]
  have le: "ds_allocatedStrips lot \<le> fadd (ds_totalStrips lot) (r_strips request)" .
  then have "0 \<le> fadd (ds_totalStrips lot) (r_strips request)"
    using ok by (simp add: lot_ok_def)
  with a ok le show "createOrUpdateDealerStock request productId now d =
                  Inr (d\<lparr>dealerStocks := replaceById ds_id
                        (lot\<lparr>ds_totalStrips := fadd (ds_totalStrips lot) (r_strips request),
                             ds_availableStrips := fsub (fadd (ds_totalStrips lot) (r_strips request))
                                                        (ds_allocatedStrips lot)\<rparr>)
                        (dealerStocks d)\<rparr>)"
    by (simp add: createOrUpdateDealerStock_eq save_stock_def presave_stock_def lot_ok_def Let_def
        fsub_sign not_less)
next
  fix i caller nt now and request :: DealerRequest
  assume a: "findById r_id i (requests d) = Some request
            \<and> (\<exists>s\<in>set (dealerStocks d). ds_sourceRequest s = i)"
  with reachable_request(4)[OF assms, of i request] have "r_status request = Approved" by blast
  with a show "approve caller (Oid i) nt now d = (Inl StateError, d)"
    by (simp add: approve_def approve_fetch_def approve_run_eq)
qed

theorem existing_lot_is_topped_up_witness:
  "map (\<lambda>s. (ds_id s, ds_totalStrips s, ds_allocatedStrips s, ds_availableStrips s))
     (dealerStocks demo_db) = [(11, 10, 0, 10), (13, 25, 0, 25)]
   \<and> map_sum id (\<lambda>d. map (\<lambda>s. (ds_id s, ds_totalStrips s, ds_allocatedStrips s,
                                 ds_availableStrips s)) (dealerStocks d))
       (createOrUpdateDealerStock
          \<lparr>r_id = 10, r_dealer = 2, r_product = 1, r_strips = 10,
            r_status = Approved, r_paymentStatus = Verified,
            r_receiptImage = Some ''receipt.png'',
            r_paymentVerifiedBy = Some 9, r_paymentVerifiedAt = Some 3,
            r_paymentNotes = [], r_requestedAt = 1, r_processedBy = Some 9,
            r_processedAt = Some 4, r_notes = []\<rparr> 1 30 demo_db)
       = Inr [(11, 20, 0, 20), (13, 25, 0, 25)]
   \<and> approve 9 (Oid 10) None 30 demo_db = (Inl StateError, demo_db)"
proof -
  let ?r = "\<lparr>r_id = 10, r_dealer = 2, r_product = 1, r_strips = 10,
            r_status = Approved, r_paymentStatus = Verified,
            r_receiptImage = Some ''receipt.png'',
            r_paymentVerifiedBy = Some 9, r_paymentVerifiedAt = Some 3,
            r_paymentNotes = [], r_requestedAt = 1, r_processedBy = Some 9,
            r_processedAt = Some 4, r_notes = []\<rparr>"
  let ?lot = "\<lparr>ds_id = 11, ds_dealer = 2, ds_product = 1, ds_totalStrips = 10,
          ds_allocatedStrips = 0, ds_availableStrips = 10,
          ds_sourceRequest = 10, ds_createdAt = 4\<rparr>"
  note inst = existing_lot_is_topped_up[OF demo_reachable]
  have h1: "find (\<lambda>s. ds_dealer s = r_dealer ?r \<and> ds_product s = 1
                         \<and> ds_sourceRequest s = r_id ?r) (dealerStocks demo_db) = Some ?lot
            \<and> 0 \<le> r_strips ?r"
    by (simp add: demo_db_eval)
  have h2: "findById r_id 10 (requests demo_db) = Some ?r
            \<and> (\<exists>s\<in>set (dealerStocks demo_db). ds_sourceRequest s = 10)"
    by (simp add: demo_db_eval findById_def)
  from inst h1 have c1: "createOrUpdateDealerStock ?r 1 30 demo_db =
                  Inr (demo_db\<lparr>dealerStocks := replaceById ds_id
                        (?lot\<lparr>ds_totalStrips := fadd (ds_totalStrips ?lot) (r_strips ?r),
                             ds_availableStrips := fsub (fadd (ds_totalStrips ?lot) (r_strips ?r))
                                                        (ds_allocatedStrips ?lot)\<rparr>)
                        (dealerStocks demo_db)\<rparr>)"
    by blast
  from inst h2 have c2: "approve 9 (Oid 10) None 30 demo_db = (Inl StateError, demo_db)"
    by blast
  show ?thesis
    unfolding c1 c2 by (simp add: demo_db_eval replaceById_def fadd_def fsub_def)
qed

subsection \<open>Receipt upload\<close>

text \<open>
  Claim C4 says that a receipt upload succeeds only when the request is pending, its
  \<open>paymentStatus\<close> is pending or rejected and the caller owns it, so that a verified
  payment never goes back to paid. The handler checks the owner and the \<open>status\<close>, and
  never reads \<open>paymentStatus\<close>: in \<open>demo_verified_db\<close> the third request is pending with
  a verified payment, its dealer uploads a receipt again, and the payment is paid.
\<close>

theorem verified_payment_reopened_counterexample:
  "map (\<lambda>r. (r_id r, r_dealer r, r_status r, r_paymentStatus r)) (requests demo_verified_db)
     = [(10, 2, Approved, Verified), (12, 2, Approved, Verified), (14, 2, Pending, Verified)]
   \<and> map_sum id r_paymentStatus
        (fst (uploadReceipt 2 (Oid 14) (Uploaded ''again.png'') demo_verified_db)) = Inr Paid
   \<and> map (\<lambda>r. (r_id r, r_dealer r, r_status r, r_paymentStatus r))
        (requests (snd (uploadReceipt 2 (Oid 14) (Uploaded ''again.png'') demo_verified_db)))
     = [(10, 2, Approved, Verified), (12, 2, Approved, Verified), (14, 2, Pending, Paid)]"
  by (simp add: demo_verified_db_eval demo_db_eval eval_defs)

text \<open>
  Claim C4 as amended. In every reachable state, a receipt upload for a stored request
  fails with AccessDenied when the caller is not the request's dealer, with StateError when
  the request's \<open>status\<close> is not pending, with ValidationError when no file is sent, and
  with the server error when the image store throws; otherwise it succeeds, stores the
  receipt reference and sets \<open>paymentStatus\<close> to paid, whatever \<open>paymentStatus\<close> was. A
  failed upload leaves the database as it was.
\<close>

theorem uploadReceipt_effect:
  assumes "reachable d" and "findById r_id i (requests d) = Some request"
  shows "uploadReceipt caller (Oid i) file d =
      (if r_dealer request \<noteq> caller then (Inl AccessDenied, d)
       else if r_status request \<noteq> Pending then (Inl StateError, d)
       else case file of
              NoFile \<Rightarrow> (Inl ValidationError, d)
            | UploadFailed \<Rightarrow> (Inl ServerError, d)
            | Uploaded url \<Rightarrow>
                (Inr (request\<lparr>r_receiptImage := Some (js_trim url), r_paymentStatus := Paid\<rparr>),
                 d\<lparr>requests := replaceById r_id
                      (request\<lparr>r_receiptImage := Some (js_trim url), r_paymentStatus := Paid\<rparr>)
                      (requests d)\<rparr>))"
  using assms(2) reachable_request(1)[OF assms]
  by (simp add: uploadReceipt_def save_request_def Let_def split: upload.splits)

text \<open>
  The amended claim at \<open>demo_verified_db\<close>: the dealer's upload for the pending request 14,
  the same upload for the approved request 10, and the upload of another user.
\<close>

theorem uploadReceipt_effect_witness:
  "uploadReceipt 2 (Oid 14) (Uploaded ''again.png'') demo_verified_db =
     (Inr \<lparr>r_id = 14, r_dealer = 2, r_product = 1, r_strips = 5,
          r_status = Pending, r_paymentStatus = Paid,
          r_receiptImage = Some ''again.png'', r_paymentVerifiedBy = Some 9,
          r_paymentVerifiedAt = Some 11, r_paymentNotes = [],
          r_requestedAt = 9, r_processedBy = None, r_processedAt = None,
          r_notes = []\<rparr>,
      demo_verified_db\<lparr>requests := replaceById r_id
          \<lparr>r_id = 14, r_dealer = 2, r_product = 1, r_strips = 5,
          r_status = Pending, r_paymentStatus = Paid,
          r_receiptImage = Some ''again.png'', r_paymentVerifiedBy = Some 9,
          r_paymentVerifiedAt = Some 11, r_paymentNotes = [],
          r_requestedAt = 9, r_processedBy = None, r_processedAt = None,
          r_notes = []\<rparr> (requests demo_verified_db)\<rparr>)
   \<and> uploadReceipt 2 (Oid 10) (Uploaded ''again.png'') demo_verified_db
       = (Inl StateError, demo_verified_db)
   \<and> uploadReceipt 7 (Oid 14) (Uploaded ''again.png'') demo_verified_db
       = (Inl AccessDenied, demo_verified_db)"
proof -
  have f14: "findById r_id 14 (requests demo_verified_db) =
     Some \<lparr>r_id = 14, r_dealer = 2, r_product = 1, r_strips = 5,
          r_status = Pending, r_paymentStatus = Verified,
          r_receiptImage = Some ''receipt.png'', r_paymentVerifiedBy = Some 9,
          r_paymentVerifiedAt = Some 11, r_paymentNotes = [],
          r_requestedAt = 9, r_processedBy = None, r_processedAt = None,
          r_notes = []\<rparr>"
    by (simp add: demo_verified_db_eval findById_def)
  have f10: "findById r_id 10 (requests demo_verified_db) =
     Some \<lparr>r_id = 10, r_dealer = 2, r_product = 1, r_strips = 10,
          r_status = Approved, r_paymentStatus = Verified,
          r_receiptImage = Some ''receipt.png'',
          r_paymentVerifiedBy = Some 9, r_paymentVerifiedAt = Some 3,
          r_paymentNotes = [], r_requestedAt = 1, r_processedBy = Some 9,
          r_processedAt = Some 4, r_notes = []\<rparr>"
    by (simp add: demo_verified_db_eval findById_def)
  show ?thesis
    using uploadReceipt_effect[OF demo_verified_reachable f14, of 2 "Uploaded ''again.png''"]
      uploadReceipt_effect[OF demo_verified_reachable f10, of 2 "Uploaded ''again.png''"]
      uploadReceipt_effect[OF demo_verified_reachable f14, of 7 "Uploaded ''again.png''"]
    by (simp add: js_trim_def is_space_def)
qed

subsection \<open>Oldest-first allocation\<close>

text \<open>
  Claim C5 says that every successful allocation drains the lots strictly oldest first,
  each lot with available strips by \<open>min(availableStrips, remaining)\<close>, and that a newer
  lot is touched only after every older lot's \<open>availableStrips\<close> has reached 0. The
  handler computes in doubles and accepts fractions. In \<open>drift_db\<close> the older lot has
  3.4 strips of which 1.3 are allocated, and the newer lot has 5 strips. Allocating 4
  strips succeeds with records for the older lot's whole \<open>availableStrips\<close> (the double
  2.1) and for the rest from the newer lot; the older lot's \<open>allocatedStrips\<close> becomes
  the double nearest to 1.3 + 2.1, which is 3.3999999999999995, so its \<open>availableStrips\<close>
  is \<open>2\<^sup>-\<^sup>5\<^sup>1\<close> and not 0 although the newer lot has been drawn from; the lots are not those
  of \<open>fifo_drain\<close>. The next allocation of 1 strip finds the older lot with available
  strips, takes \<open>2\<^sup>-\<^sup>5\<^sup>1\<close> from it, and fails when the record of that portion is saved.
\<close>

theorem fractional_lot_not_drained_counterexample:
  "reachable drift_db
   \<and> map (\<lambda>s. (ds_id s, ds_createdAt s, ds_totalStrips s, ds_allocatedStrips s,
                ds_availableStrips s)) (findStocks 2 1 drift_db)
      = [(11, 4, fl (17 / 5), fl (13 / 10), 1182194902184755 / 562949953421312), (14, 9, 5, 0, 5)]
   \<and> map_sum id snd (fst (allocate 2 (Oid 3) (Oid 1) (JNum 4) None 10 drift_db)) = Inr 4
   \<and> map (\<lambda>s. (ds_id s, ds_allocatedStrips s, ds_availableStrips s))
        (findStocks 2 1 (snd (allocate 2 (Oid 3) (Oid 1) (JNum 4) None 10 drift_db)))
      = [(11, 3828059683264921 / 1125899906842624, 1 / 2251799813685248),
         (14, 1069604911500493 / 562949953421312, 1745144855606067 / 562949953421312)]
   \<and> findStocks 2 1 (snd (allocate 2 (Oid 3) (Oid 1) (JNum 4) None 10 drift_db))
      \<noteq> fifo_drain 4 (findStocks 2 1 drift_db)
   \<and> fst (allocate 2 (Oid 3) (Oid 1) (JNum 1) None 11
            (snd (allocate 2 (Oid 3) (Oid 1) (JNum 4) None 10 drift_db))) = Inl ServerError"
proof -
  have "reachable drift_db"
    unfolding drift_db_def lifecycle_def
    by (intro reachable.createRequest reachable.approve reachable.verifyPayment
          reachable.uploadReceipt reachable.allocate reachable.initial)
       (simp_all add: shop0_def)
  moreover have "map (\<lambda>s. (ds_id s, ds_createdAt s, ds_totalStrips s, ds_allocatedStrips s,
                ds_availableStrips s)) (findStocks 2 1 drift_db)
      = [(11, 4, fl (17 / 5), fl (13 / 10), 1182194902184755 / 562949953421312), (14, 9, 5, 0, 5)]"
    by (simp add: drift_db_eval findStocks_def fl_drift)
  moreover have "map_sum id snd (fst (allocate 2 (Oid 3) (Oid 1) (JNum 4) None 10 drift_db)) = Inr 4"
    unfolding drift_allocate_eval by simp
  moreover have "map (\<lambda>s. (ds_id s, ds_allocatedStrips s, ds_availableStrips s))
        (findStocks 2 1 (snd (allocate 2 (Oid 3) (Oid 1) (JNum 4) None 10 drift_db)))
      = [(11, 3828059683264921 / 1125899906842624, 1 / 2251799813685248),
         (14, 1069604911500493 / 562949953421312, 1745144855606067 / 562949953421312)]"
    unfolding drift_allocate_eval by (simp add: drift_db_eval findStocks_def)
  moreover have "findStocks 2 1 (snd (allocate 2 (Oid 3) (Oid 1) (JNum 4) None 10 drift_db))
      \<noteq> fifo_drain 4 (findStocks 2 1 drift_db)"
    unfolding drift_allocate_eval by (simp add: drift_db_eval findStocks_def)
  moreover note drift_allocate_again_eval
  ultimately show ?thesis by blast
qed

text \<open>
  Claim C5 as amended: a successful allocation of a whole number of strips from lots whose
  \<open>totalStrips\<close> and \<open>allocatedStrips\<close> are whole numbers consumes the lots strictly
  oldest first. Only a call with two valid identifiers and a number can succeed
  (\<open>allocate_success_shape\<close>). For such a call from a reachable state, with the dealer's
  lots of the product in the order of their creation time: the allocation records it adds
  are those of the plan \<open>fifo_portions\<close>, one per lot with available strips, each for
  \<open>min(availableStrips, remaining)\<close>, and they add up to the requested strips; the lots
  afterwards are those of \<open>fifo_drain\<close>; and whenever a lot's \<open>allocatedStrips\<close> has
  changed, every older lot has \<open>availableStrips = 0\<close>. In particular 30 strips against
  lots with 10 and 25 strips available give records of 10 and 20.
\<close>

theorem allocate_fifo:
  assumes "reachable d"
    and "allocate caller (Oid sid) (Oid pid) (JNum n) notes now d = (Inr res, d')"
    and "whole n" and "list_all whole_lot (findStocks caller pid d)"
  shows "sorted (map ds_createdAt (findStocks caller pid d))
       \<and> (\<exists>new. allocations d' = allocations d @ new
            \<and> map (\<lambda>a. (sa_dealerStock a, sa_strips a)) new = fifo_portions n (findStocks caller pid d)
            \<and> sum_list (map sa_strips new) = n)
       \<and> findStocks caller pid d' = fifo_drain n (findStocks caller pid d)
       \<and> (\<forall>j < length (findStocks caller pid d). \<forall>i < j.
            ds_allocatedStrips (findStocks caller pid d' ! j)
               \<noteq> ds_allocatedStrips (findStocks caller pid d ! j)
            \<longrightarrow> ds_availableStrips (findStocks caller pid d' ! i) = 0)
       \<and> (\<forall>older newer. ds_availableStrips older = 10 \<and> ds_availableStrips newer = 25
            \<longrightarrow> fifo_portions 30 [older, newer] = [(ds_id older, 10), (ds_id newer, 20)])"
proof -
  let ?ls = "findStocks caller pid d"
  from allocate_success[OF assms(2)] obtain rem' allocs' upd' where n: "1 \<le> n"
    and w: "walk caller sid pid (js_trim (or_default notes [])) now ?ls n [] [] d
             = (Inr (rem', allocs', upd'), d')" and le: "rem' \<le> 0"
    by blast
  from n have n0: "0 \<le> n" by simp
  have inv: "db_inv d" by (rule reachable_inv[OF assms(1)])
  then have dist: "distinct (map ds_id (dealerStocks d))"
    and ok: "\<forall>l\<in>set (dealerStocks d). lot_ok l"
    by (auto simp: db_inv_def list_all_iff)
  have sub: "set ?ls \<subseteq> set (dealerStocks d)" by (rule findStocks_subset)
  have okls: "\<forall>l\<in>set ?ls. whole_lot l \<and> lot_ok l"
    using ok sub assms(4) by (auto simp: list_all_iff)
  from walk_success[OF w assms(3) okls] obtain new where
    new: "allocations d' = allocations d @ new"
      "map (\<lambda>a. (sa_dealerStock a, sa_strips a)) new = fifo_portions n ?ls"
      "rem' = n - sum_list (map sa_strips new)" "0 \<le> rem'"
      "dealerStocks d' = map (drain_fun n ?ls) (dealerStocks d)"
    by auto
  from new(3,4) le have total: "sum_list (map sa_strips new) = n" by simp
  have inj: "inj_on ds_id (set (dealerStocks d))" using dist by (simp add: distinct_map)
  have key: "\<forall>s\<in>set (dealerStocks d). lot_key (drain_fun n ?ls s) = lot_key s"
    using drain_fun_key[OF inj sub] by blast
  have exact: "\<forall>l\<in>set ?ls. ds_availableStrips l = ds_totalStrips l - ds_allocatedStrips l"
    using okls whole_lot_available(1) by blast
  have "findStocks caller pid d' = map (drain_fun n ?ls) ?ls"
    by (rule findStocks_map[OF key new(5)])
  also have "\<dots> = fifo_drain n ?ls"
    by (rule drain_fun_positional[OF findStocks_distinct[OF dist] n0 exact])
  finally have drained: "findStocks caller pid d' = fifo_drain n ?ls" .
  have nonneg: "\<forall>l\<in>set ?ls. 0 \<le> ds_availableStrips l"
    using okls by (auto simp: lot_ok_def fsub_sign)
  have order: "sorted (map ds_createdAt ?ls)" by (simp add: findStocks_def)
  have records: "\<exists>new. allocations d' = allocations d @ new
            \<and> map (\<lambda>a. (sa_dealerStock a, sa_strips a)) new = fifo_portions n ?ls
            \<and> sum_list (map sa_strips new) = n"
    using new(1,2) total by blast
  have touched: "\<forall>j < length ?ls. \<forall>i < j.
            ds_allocatedStrips (findStocks caller pid d' ! j) \<noteq> ds_allocatedStrips (?ls ! j)
            \<longrightarrow> ds_availableStrips (findStocks caller pid d' ! i) = 0"
    unfolding drained using fifo_drain_oldest_first[OF nonneg n0] by blast
  have example: "\<forall>older newer. ds_availableStrips older = 10 \<and> ds_availableStrips newer = 25
            \<longrightarrow> fifo_portions 30 [older, newer] = [(ds_id older, 10), (ds_id newer, 20)]"
    by simp
  show ?thesis using order records drained touched example by blast
qed

text \<open>Allocating 30 strips in \<open>demo_db\<close>, whose lots have 10 and 25 strips available.\<close>

theorem allocate_fifo_witness:
  "map (\<lambda>s. (ds_id s, ds_createdAt s, ds_availableStrips s)) (findStocks 2 1 demo_db)
      = [(11, 4, 10), (13, 8, 25)]
   \<and> whole 30 \<and> list_all whole_lot (findStocks 2 1 demo_db)
   \<and> map (\<lambda>a. (sa_dealerStock a, sa_strips a))
        (allocations (snd (allocate 2 (Oid 3) (Oid 1) (JNum 30) None 20 demo_db)))
      = [(11, 10), (13, 20)]
   \<and> findStocks 2 1 (snd (allocate 2 (Oid 3) (Oid 1) (JNum 30) None 20 demo_db))
      = fifo_drain 30 (findStocks 2 1 demo_db)
   \<and> map (\<lambda>s. (ds_id s, ds_allocatedStrips s, ds_availableStrips s))
        (findStocks 2 1 (snd (allocate 2 (Oid 3) (Oid 1) (JNum 30) None 20 demo_db)))
      = [(11, 10, 0), (13, 20, 5)]"
proof -
  have run: "allocate 2 (Oid 3) (Oid 1) (JNum 30) None 20 demo_db =
      (Inr (\<lparr>sa_id = 15, sa_dealer = 2, sa_salesman = 3, sa_product = 1,
             sa_strips = 10, sa_dealerStock = 11, sa_notes = [], sa_createdAt = 20\<rparr>, 30),
       snd (allocate 2 (Oid 3) (Oid 1) (JNum 30) None 20 demo_db))"
    by (simp add: demo_db_eval eval_defs)
  have w: "whole 30" by simp
  have ls: "list_all whole_lot (findStocks 2 1 demo_db)"
    by (simp add: demo_db_eval findStocks_def whole_lot_def)
  from allocate_fifo[OF demo_reachable run w ls]
  have "findStocks 2 1 (snd (allocate 2 (Oid 3) (Oid 1) (JNum 30) None 20 demo_db))
      = fifo_drain 30 (findStocks 2 1 demo_db)"
    by blast
  moreover have "map (\<lambda>s. (ds_id s, ds_createdAt s, ds_availableStrips s)) (findStocks 2 1 demo_db)
      = [(11, 4, 10), (13, 8, 25)]"
    by (simp add: demo_db_eval eval_defs)
  moreover have "map (\<lambda>a. (sa_dealerStock a, sa_strips a))
        (allocations (snd (allocate 2 (Oid 3) (Oid 1) (JNum 30) None 20 demo_db)))
      = [(11, 10), (13, 20)]"
    by (simp add: demo_db_eval eval_defs)
  moreover have "map (\<lambda>s. (ds_id s, ds_allocatedStrips s, ds_availableStrips s))
        (findStocks 2 1 (snd (allocate 2 (Oid 3) (Oid 1) (JNum 30) None 20 demo_db)))
      = [(11, 10, 0), (13, 20, 5)]"
    by (simp add: demo_db_eval eval_defs)
  ultimately show ?thesis using w ls by blast
qed

subsection \<open>Approval\<close>

text \<open>
  Claim C6 says that approval decrements central stock by exactly the quantity, marks the
  request approved and creates exactly one lot, and that a second approve on the same
  request fails, so that approval succeeds at most once per request, also when the two
  calls race. The handler reads the request once and never checks its status again, and
  nothing else keeps two calls apart. In \<open>demo_verified_db\<close> the third request (14, for 5
  strips) is pending with its payment verified and central stock is 65. Two approve calls
  for it served at once both succeed: central stock is 60, as after one approval, and the
  request has two lots of 5 strips. The decrement is a subtraction of doubles: approving
  a request for 1.1 strips with 100 strips in central stock leaves the double nearest to
  the difference, which is not the difference.
\<close>

theorem overlapping_approvals_counterexample:
  "map (\<lambda>r. (r_id r, r_strips r, r_status r, r_paymentStatus r)) (requests demo_verified_db)
     = [(10, 10, Approved, Verified), (12, 25, Approved, Verified), (14, 5, Pending, Verified)]
   \<and> products demo_verified_db = [\<lparr>p_id = 1, p_stock = 65\<rparr>]
   \<and> map (\<lambda>s. (ds_id s, ds_sourceRequest s, ds_totalStrips s)) (dealerStocks demo_verified_db)
     = [(11, 10, 10), (13, 12, 25)]
   \<and> map_option (\<lambda>(requestA, requestB, d).
          (r_id requestA, r_status requestA, r_id requestB, r_status requestB, products d,
           map (\<lambda>s. (ds_id s, ds_sourceRequest s, ds_totalStrips s)) (dealerStocks d)))
        (approve_overlapped 9 9 (Oid 14) 12 12 demo_verified_db)
     = Some (14, Approved, 14, Approved, [\<lparr>p_id = 1, p_stock = 60\<rparr>],
             [(11, 10, 10), (13, 12, 25), (15, 14, 5), (16, 14, 5)])
   \<and> products (lifecycle (fl (11 / 10)) 1 shop0)
     = [\<lparr>p_id = 1, p_stock = 3479734399585485 / 35184372088832\<rparr>]
   \<and> 3479734399585485 / 35184372088832 \<noteq> 100 - fl (11 / 10)"
proof -
  have "map_option (\<lambda>(requestA, requestB, d).
          (r_id requestA, r_status requestA, r_id requestB, r_status requestB, products d,
           map (\<lambda>s. (ds_id s, ds_sourceRequest s, ds_totalStrips s)) (dealerStocks d)))
        (approve_overlapped 9 9 (Oid 14) 12 12 demo_verified_db)
     = Some (14, Approved, 14, Approved, [\<lparr>p_id = 1, p_stock = 60\<rparr>],
             [(11, 10, 10), (13, 12, 25), (15, 14, 5), (16, 14, 5)])"
    unfolding demo_verified_db_eval demo_db_eval by code_simp
  moreover have "products (lifecycle (fl (11 / 10)) 1 shop0)
     = [\<lparr>p_id = 1, p_stock = 3479734399585485 / 35184372088832\<rparr>]"
    by code_simp
  moreover have "3479734399585485 / 35184372088832 \<noteq> 100 - fl (11 / 10)"
    by code_simp
  ultimately show ?thesis
    by (simp add: demo_verified_db_eval demo_db_eval)
qed

text \<open>
  Claim C6 as amended: approval served alone, and a second approval that starts after the
  first has finished. For a pending request with verified payment and central stock of at
  least its quantity, in a reachable state, an approve call that is served alone succeeds;
  it writes the product with its stock decreased by the quantity (the difference as the
  program computes it, which is the exact difference when stock and quantity are whole
  numbers), the request with \<open>status\<close> approved, and exactly one new lot, appended to the
  lots, with \<open>totalStrips\<close> the quantity and \<open>allocatedStrips = 0\<close>; nothing else
  changes. An approve call for the same request on the state that the first one left
  fails with StateError and changes nothing.
\<close>

theorem approve_once:
  assumes "reachable d" and "findById r_id i (requests d) = Some request"
    and "r_status request = Pending" and "r_paymentStatus request = Verified"
    and "findById p_id (r_product request) (products d) = Some product"
    and "r_strips request \<le> p_stock product"
  shows "approve caller (Oid i) notes now d =
      (Inr (request\<lparr>r_status := Approved, r_processedBy := Some caller,
                     r_processedAt := Some now, r_notes := js_trim (or_default notes [])\<rparr>),
       d\<lparr>products := replaceById p_id
                        (product\<lparr>p_stock := fsub (p_stock product) (r_strips request)\<rparr>)
                        (products d),
         requests := replaceById r_id
                        (request\<lparr>r_status := Approved, r_processedBy := Some caller,
                                 r_processedAt := Some now,
                                 r_notes := js_trim (or_default notes [])\<rparr>) (requests d),
         dealerStocks := dealerStocks d @
            [\<lparr>ds_id = nextId d, ds_dealer = r_dealer request, ds_product = r_product request,
              ds_totalStrips = r_strips request, ds_allocatedStrips = 0,
              ds_availableStrips = r_strips request, ds_sourceRequest = i, ds_createdAt = now\<rparr>],
         nextId := nextId d + 1\<rparr>)
    \<and> findById p_id (r_product request) (products (snd (approve caller (Oid i) notes now d)))
         = Some (product\<lparr>p_stock := fsub (p_stock product) (r_strips request)\<rparr>)
    \<and> (whole (p_stock product) \<and> whole (r_strips request)
         \<longrightarrow> fsub (p_stock product) (r_strips request) = p_stock product - r_strips request)
    \<and> approve caller2 (Oid i) notes2 now2 (snd (approve caller (Oid i) notes now d))
         = (Inl StateError, snd (approve caller (Oid i) notes now d))"
proof -
  define request' where "request' = request\<lparr>r_status := Approved, r_processedBy := Some caller,
                     r_processedAt := Some now, r_notes := js_trim (or_default notes [])\<rparr>"
  define product' where "product' = product\<lparr>p_stock := fsub (p_stock product) (r_strips request)\<rparr>"
  note rq = reachable_request[OF assms(1,2)]
  have pid: "p_id product = r_product request" using findById_Some[OF assms(5)] by simp
  have nolot: "find (\<lambda>s. ds_dealer s = r_dealer request \<and> ds_product s = r_product request
                         \<and> ds_sourceRequest s = i) (dealerStocks d) = None"
    using rq(4) assms(3) by (auto simp: find_None_iff)
  have left: "\<not> fsub (p_stock product) (r_strips request) < 0"
    using assms(6) by (simp add: fsub_sign not_less)
  have new: "fsub (r_strips request) 0 = r_strips request"
    by (rule fsub_zero_right[OF rq(5)])
  have main: "approve caller (Oid i) notes now d =
      (Inr request',
       d\<lparr>products := replaceById p_id product' (products d),
         requests := replaceById r_id request' (requests d),
         dealerStocks := dealerStocks d @
            [\<lparr>ds_id = nextId d, ds_dealer = r_dealer request, ds_product = r_product request,
              ds_totalStrips = r_strips request, ds_allocatedStrips = 0,
              ds_availableStrips = r_strips request, ds_sourceRequest = i, ds_createdAt = now\<rparr>],
         nextId := nextId d + 1\<rparr>)"
    using assms(2-6) rq(1,2) pid nolot left new
    by (simp add: approve_def approve_fetch_def approve_run_eq save_product_def save_request_def
        createOrUpdateDealerStock_eq insert_stock_def presave_stock_def request'_def product'_def
        Let_def)
  have p': "findById p_id (p_id product') (replaceById p_id product' (products d)) = Some product'"
    by (rule findById_replace_self[of p_id product' "products d" product])
       (use assms(5) pid in \<open>simp add: product'_def\<close>)
  have r': "findById r_id (r_id request') (replaceById r_id request' (requests d)) = Some request'"
    by (rule findById_replace_self[of r_id request' "requests d" request])
       (use assms(2) rq(2) in \<open>simp add: request'_def\<close>)
  define d' where "d' = d\<lparr>products := replaceById p_id product' (products d),
         requests := replaceById r_id request' (requests d),
         dealerStocks := dealerStocks d @
            [\<lparr>ds_id = nextId d, ds_dealer = r_dealer request, ds_product = r_product request,
              ds_totalStrips = r_strips request, ds_allocatedStrips = 0,
              ds_availableStrips = r_strips request, ds_sourceRequest = i, ds_createdAt = now\<rparr>],
         nextId := nextId d + 1\<rparr>"
  have snd_eq: "snd (approve caller (Oid i) notes now d) = d'"
    unfolding main d'_def by simp
  have "findById r_id i (requests d') = Some request'"
    using r' rq(2) by (simp add: d'_def request'_def)
  then have "approve caller2 (Oid i) notes2 now2 d' = (Inl StateError, d')"
    by (simp add: approve_def approve_fetch_def approve_run_eq request'_def)
  then have again: "approve caller2 (Oid i) notes2 now2 (snd (approve caller (Oid i) notes now d))
         = (Inl StateError, snd (approve caller (Oid i) notes now d))"
    unfolding snd_eq .
  have stock: "findById p_id (r_product request) (products (snd (approve caller (Oid i) notes now d)))
         = Some product'"
    unfolding snd_eq using p' pid by (simp add: d'_def product'_def)
  have exact: "whole (p_stock product) \<and> whole (r_strips request)
         \<longrightarrow> fsub (p_stock product) (r_strips request) = p_stock product - r_strips request"
    using assms(6) by (simp add: whole_fsub)
  show ?thesis
    using main stock exact again unfolding request'_def product'_def by blast
qed

text \<open>Approving the third request of \<open>demo_verified_db\<close> (5 strips, central stock 65), twice.\<close>

theorem approve_once_witness:
  "products demo_verified_db = [\<lparr>p_id = 1, p_stock = 65\<rparr>]
   \<and> products (snd (approve 9 (Oid 14) None 13 demo_verified_db)) = [\<lparr>p_id = 1, p_stock = 60\<rparr>]
   \<and> map_sum id r_status (fst (approve 9 (Oid 14) None 13 demo_verified_db)) = Inr Approved
   \<and> dealerStocks (snd (approve 9 (Oid 14) None 13 demo_verified_db))
       = dealerStocks demo_verified_db @
           [\<lparr>ds_id = 15, ds_dealer = 2, ds_product = 1, ds_totalStrips = 5, ds_allocatedStrips = 0,
             ds_availableStrips = 5, ds_sourceRequest = 14, ds_createdAt = 13\<rparr>]
   \<and> approve 9 (Oid 14) None 14 (snd (approve 9 (Oid 14) None 13 demo_verified_db))
       = (Inl StateError, snd (approve 9 (Oid 14) None 13 demo_verified_db))"
proof -
  let ?r = "\<lparr>r_id = 14, r_dealer = 2, r_product = 1, r_strips = 5,
          r_status = Pending, r_paymentStatus = Verified,
          r_receiptImage = Some ''receipt.png'', r_paymentVerifiedBy = Some 9,
          r_paymentVerifiedAt = Some 11, r_paymentNotes = [],
          r_requestedAt = 9, r_processedBy = None, r_processedAt = None,
          r_notes = []\<rparr>"
  have f: "findById r_id 14 (requests demo_verified_db) = Some ?r"
    by (simp add: demo_verified_db_eval findById_def)
  have p: "findById p_id (r_product ?r) (products demo_verified_db) = Some \<lparr>p_id = 1, p_stock = 65\<rparr>"
    by (simp add: demo_verified_db_eval demo_db_eval findById_def)
  have s: "r_status ?r = Pending" "r_paymentStatus ?r = Verified"
    "r_strips ?r \<le> p_stock \<lparr>p_id = 1, p_stock = 65\<rparr>"
    by simp_all
  have "approve 9 (Oid 14) None 14 (snd (approve 9 (Oid 14) None 13 demo_verified_db))
       = (Inl StateError, snd (approve 9 (Oid 14) None 13 demo_verified_db))"
    by (rule approve_once[OF demo_verified_reachable f s(1,2) p s(3),
          THEN conjunct2, THEN conjunct2, THEN conjunct2])
  then show ?thesis
    by (simp add: demo_verified_db_eval demo_db_eval eval_defs)
qed

text \<open>
  Claim C7: approving a pending request whose payment is not verified fails with
  StateError, whatever the central stock is, and leaves the database (request, central
  stock, lots and allocations) as it was.
\<close>

theorem approve_needs_verified_payment:
  assumes "findById r_id i (requests d) = Some request"
    and "r_status request = Pending" and "r_paymentStatus request \<noteq> Verified"
  shows "approve caller (Oid i) notes now d = (Inl StateError, d)"
  using assms by (simp add: approve_def approve_fetch_def approve_run_eq)

text \<open>
  The third request of \<open>demo_db\<close> asks for 5 strips, central stock is 65, and no receipt
  has been uploaded.
\<close>

theorem approve_needs_verified_payment_witness:
  "map (\<lambda>r. (r_id r, r_strips r, r_status r, r_paymentStatus r)) (requests demo_db)
     = [(10, 10, Approved, Verified), (12, 25, Approved, Verified), (14, 5, Pending, PaymentPending)]
   \<and> products demo_db = [\<lparr>p_id = 1, p_stock = 65\<rparr>]
   \<and> approve 9 (Oid 14) None 13 demo_db = (Inl StateError, demo_db)"
proof -
  have f: "findById r_id 14 (requests demo_db) =
      Some \<lparr>r_id = 14, r_dealer = 2, r_product = 1, r_strips = 5,
          r_status = Pending, r_paymentStatus = PaymentPending,
          r_receiptImage = None, r_paymentVerifiedBy = None,
          r_paymentVerifiedAt = None, r_paymentNotes = [],
          r_requestedAt = 9, r_processedBy = None, r_processedAt = None,
          r_notes = []\<rparr>"
    by (simp add: demo_db_eval findById_def)
  have "approve 9 (Oid 14) None 13 demo_db = (Inl StateError, demo_db)"
    using approve_needs_verified_payment[OF f] by simp
  then show ?thesis by (simp add: demo_db_eval)
qed

subsection \<open>The lot invariant\<close>



subsection \<open>Cancellation\<close>

text \<open>
  Claim C9: in a reachable state, cancelling a stored request that is pending sets its
  \<open>status\<close> to cancelled (and records the admin, the time and the notes of the call on the
  request); the products, and so central stock, the lots, the allocations and every other
  request stay as they are. Cancelling a request that is not pending fails with StateError
  and changes nothing.
\<close>

theorem cancel_effect:
  assumes "reachable d" and "findById r_id i (requests d) = Some request"
  shows "cancel caller (Oid i) notes now d =
      (if r_status request = Pending
       then (Inr (request\<lparr>r_status := Cancelled, r_processedBy := Some caller,
                          r_processedAt := Some now, r_notes := js_trim (or_default notes [])\<rparr>),
             d\<lparr>requests := replaceById r_id
                  (request\<lparr>r_status := Cancelled, r_processedBy := Some caller,
                           r_processedAt := Some now,
                           r_notes := js_trim (or_default notes [])\<rparr>) (requests d)\<rparr>)
       else (Inl StateError, d))
    \<and> products (snd (cancel caller (Oid i) notes now d)) = products d
    \<and> dealerStocks (snd (cancel caller (Oid i) notes now d)) = dealerStocks d
    \<and> allocations (snd (cancel caller (Oid i) notes now d)) = allocations d"
  using assms(2) reachable_request(1)[OF assms]
  by (simp add: cancel_def save_request_def Let_def)

text \<open>Cancelling the pending request 14 and the approved request 10 of \<open>demo_db\<close>.\<close>

theorem cancel_effect_witness:
  "map (\<lambda>r. (r_id r, r_status r)) (requests demo_db)
     = [(10, Approved), (12, Approved), (14, Pending)]
   \<and> map (\<lambda>r. (r_id r, r_status r)) (requests (snd (cancel 9 (Oid 14) None 13 demo_db)))
     = [(10, Approved), (12, Approved), (14, Cancelled)]
   \<and> products (snd (cancel 9 (Oid 14) None 13 demo_db)) = products demo_db
   \<and> dealerStocks (snd (cancel 9 (Oid 14) None 13 demo_db)) = dealerStocks demo_db
   \<and> cancel 9 (Oid 10) None 13 demo_db = (Inl StateError, demo_db)"
proof -
  have f14: "findById r_id 14 (requests demo_db) =
      Some \<lparr>r_id = 14, r_dealer = 2, r_product = 1, r_strips = 5,
          r_status = Pending, r_paymentStatus = PaymentPending,
          r_receiptImage = None, r_paymentVerifiedBy = None,
          r_paymentVerifiedAt = None, r_paymentNotes = [],
          r_requestedAt = 9, r_processedBy = None, r_processedAt = None,
          r_notes = []\<rparr>"
    by (simp add: demo_db_eval findById_def)
  have f10: "findById r_id 10 (requests demo_db) =
     Some \<lparr>r_id = 10, r_dealer = 2, r_product = 1, r_strips = 10,
          r_status = Approved, r_paymentStatus = Verified,
          r_receiptImage = Some ''receipt.png'',
          r_paymentVerifiedBy = Some 9, r_paymentVerifiedAt = Some 3,
          r_paymentNotes = [], r_requestedAt = 1, r_processedBy = Some 9,
          r_processedAt = Some 4, r_notes = []\<rparr>"
    by (simp add: demo_db_eval findById_def)
  have a: "products (snd (cancel 9 (Oid 14) None 13 demo_db)) = products demo_db
      \<and> dealerStocks (snd (cancel 9 (Oid 14) None 13 demo_db)) = dealerStocks demo_db"
    using cancel_effect[OF demo_reachable f14, of 9 None 13] by blast
  have b: "cancel 9 (Oid 10) None 13 demo_db = (Inl StateError, demo_db)"
    using cancel_effect[OF demo_reachable f10, of 9 None 13] by simp
  have c: "map (\<lambda>r. (r_id r, r_status r)) (requests (snd (cancel 9 (Oid 14) None 13 demo_db)))
     = [(10, Approved), (12, Approved), (14, Cancelled)]"
    by (simp add: demo_db_eval eval_defs)
  show ?thesis using a b c by (simp add: demo_db_eval)
qed

subsection \<open>Fractional quantities\<close>

text \<open>
  Claim C10: the quantity check of request creation and of allocation accepts every number
  of at least 1, integer or not. Neither handler answers with a validation error for such
  a quantity; request creation, given the product and enough central stock, stores the
  request with exactly that quantity. For 2.5 strips: approval leaves 97.5 of 100 strips
  in central stock and creates a lot of 2.5 strips (\<open>fraction_db\<close>), and allocating 1.5
  strips from that lot leaves it with 1.5 allocated and 1 available.
\<close>

theorem fractional_quantities_accepted:
  assumes "1 \<le> n"
  shows "fst (createRequest caller (Oid pid) (JNum n) now d) \<noteq> Inl ValidationError
     \<and> fst (allocate caller (Oid sid) (Oid pid) (JNum n) notes now d) \<noteq> Inl ValidationError
     \<and> (\<forall>product. findById p_id pid (products d) = Some product \<and> n \<le> p_stock product
          \<longrightarrow> createRequest caller (Oid pid) (JNum n) now d =
              (Inr \<lparr>r_id = nextId d, r_dealer = caller, r_product = pid, r_strips = n,
                    r_status = Pending, r_paymentStatus = PaymentPending,
                    r_receiptImage = None, r_paymentVerifiedBy = None,
                    r_paymentVerifiedAt = None, r_paymentNotes = [],
                    r_requestedAt = now, r_processedBy = None, r_processedAt = None,
                    r_notes = []\<rparr>,
               d\<lparr>requests := requests d @
                    [\<lparr>r_id = nextId d, r_dealer = caller, r_product = pid, r_strips = n,
                      r_status = Pending, r_paymentStatus = PaymentPending,
                      r_receiptImage = None, r_paymentVerifiedBy = None,
                      r_paymentVerifiedAt = None, r_paymentNotes = [],
                      r_requestedAt = now, r_processedBy = None, r_processedAt = None,
                      r_notes = []\<rparr>],
                 nextId := nextId d + 1\<rparr>))
     \<and> products shop0 = [\<lparr>p_id = 1, p_stock = 100\<rparr>]
     \<and> products fraction_db = [\<lparr>p_id = 1, p_stock = 195 / 2\<rparr>]
     \<and> map (\<lambda>s. (ds_totalStrips s, ds_allocatedStrips s, ds_availableStrips s))
          (dealerStocks fraction_db) = [(5 / 2, 0, 5 / 2)]
     \<and> map sa_strips (allocations (snd (allocate 2 (Oid 3) (Oid 1) (JNum (3 / 2)) None 9 fraction_db)))
          = [3 / 2]
     \<and> map (\<lambda>s. (ds_totalStrips s, ds_allocatedStrips s, ds_availableStrips s))
          (dealerStocks (snd (allocate 2 (Oid 3) (Oid 1) (JNum (3 / 2)) None 9 fraction_db)))
          = [(5 / 2, 3 / 2, 1)]"
proof -
  have n: "\<not> n < 1" "n \<noteq> 0" using assms by auto
  have v1: "fst (createRequest caller (Oid pid) (JNum n) now d) \<noteq> Inl ValidationError"
    using n by (simp add: createRequest_def insert_request_def Let_def split: option.splits)
  have v2: "fst (allocate caller (Oid sid) (Oid pid) (JNum n) notes now d) \<noteq> Inl ValidationError"
    by (rule allocate_not_validation[OF assms])
  have ok: "\<forall>product. findById p_id pid (products d) = Some product \<and> n \<le> p_stock product
          \<longrightarrow> createRequest caller (Oid pid) (JNum n) now d =
              (Inr \<lparr>r_id = nextId d, r_dealer = caller, r_product = pid, r_strips = n,
                    r_status = Pending, r_paymentStatus = PaymentPending,
                    r_receiptImage = None, r_paymentVerifiedBy = None,
                    r_paymentVerifiedAt = None, r_paymentNotes = [],
                    r_requestedAt = now, r_processedBy = None, r_processedAt = None,
                    r_notes = []\<rparr>,
               d\<lparr>requests := requests d @
                    [\<lparr>r_id = nextId d, r_dealer = caller, r_product = pid, r_strips = n,
                      r_status = Pending, r_paymentStatus = PaymentPending,
                      r_receiptImage = None, r_paymentVerifiedBy = None,
                      r_paymentVerifiedAt = None, r_paymentNotes = [],
                      r_requestedAt = now, r_processedBy = None, r_processedAt = None,
                      r_notes = []\<rparr>],
                 nextId := nextId d + 1\<rparr>)"
    using n by (auto simp: createRequest_def insert_request_def Let_def)
  have ex: "products shop0 = [\<lparr>p_id = 1, p_stock = 100\<rparr>]
     \<and> products fraction_db = [\<lparr>p_id = 1, p_stock = 195 / 2\<rparr>]
     \<and> map (\<lambda>s. (ds_totalStrips s, ds_allocatedStrips s, ds_availableStrips s))
          (dealerStocks fraction_db) = [(5 / 2, 0, 5 / 2)]
     \<and> map sa_strips (allocations (snd (allocate 2 (Oid 3) (Oid 1) (JNum (3 / 2)) None 9 fraction_db)))
          = [3 / 2]
     \<and> map (\<lambda>s. (ds_totalStrips s, ds_allocatedStrips s, ds_availableStrips s))
          (dealerStocks (snd (allocate 2 (Oid 3) (Oid 1) (JNum (3 / 2)) None 9 fraction_db)))
          = [(5 / 2, 3 / 2, 1)]"
    by (simp add: fraction_db_eval shop0_def eval_defs)
  show ?thesis using v1 v2 ok ex by blast
qed

text \<open>
  The quantity 2.5: a request for it in \<open>shop0\<close>, and its allocation from the lot of
  \<open>fraction_db\<close>.
\<close>

theorem fractional_quantities_accepted_witness:
  "(1::rat) \<le> 5 / 2
   \<and> createRequest 2 (Oid 1) (JNum (5 / 2)) 1 shop0 =
       (Inr \<lparr>r_id = 10, r_dealer = 2, r_product = 1, r_strips = 5 / 2,
             r_status = Pending, r_paymentStatus = PaymentPending,
             r_receiptImage = None, r_paymentVerifiedBy = None,
             r_paymentVerifiedAt = None, r_paymentNotes = [],
             r_requestedAt = 1, r_processedBy = None, r_processedAt = None, r_notes = []\<rparr>,
        shop0\<lparr>requests :=
             [\<lparr>r_id = 10, r_dealer = 2, r_product = 1, r_strips = 5 / 2,
               r_status = Pending, r_paymentStatus = PaymentPending,
               r_receiptImage = None, r_paymentVerifiedBy = None,
               r_paymentVerifiedAt = None, r_paymentNotes = [],
               r_requestedAt = 1, r_processedBy = None, r_processedAt = None, r_notes = []\<rparr>],
          nextId := 11\<rparr>)
   \<and> fst (allocate 2 (Oid 3) (Oid 1) (JNum (5 / 2)) None 9 fraction_db)
       = Inr (\<lparr>sa_id = 12, sa_dealer = 2, sa_salesman = 3, sa_product = 1, sa_strips = 5 / 2,
               sa_dealerStock = 11, sa_notes = [], sa_createdAt = 9\<rparr>, 5 / 2)"
proof -
  have h: "(1::rat) \<le> 5 / 2" by simp
  have p: "findById p_id 1 (products shop0) = Some \<lparr>p_id = 1, p_stock = 100\<rparr>
           \<and> (5 / 2 :: rat) \<le> p_stock \<lparr>p_id = 1, p_stock = 100\<rparr>"
    by (simp add: shop0_def findById_def)
  note inst = fractional_quantities_accepted[OF h, of 2 1 1 shop0]
  from inst p have c: "createRequest 2 (Oid 1) (JNum (5 / 2)) 1 shop0 =
       (Inr \<lparr>r_id = nextId shop0, r_dealer = 2, r_product = 1, r_strips = 5 / 2,
             r_status = Pending, r_paymentStatus = PaymentPending,
             r_receiptImage = None, r_paymentVerifiedBy = None,
             r_paymentVerifiedAt = None, r_paymentNotes = [],
             r_requestedAt = 1, r_processedBy = None, r_processedAt = None, r_notes = []\<rparr>,
        shop0\<lparr>requests := requests shop0 @
             [\<lparr>r_id = nextId shop0, r_dealer = 2, r_product = 1, r_strips = 5 / 2,
               r_status = Pending, r_paymentStatus = PaymentPending,
               r_receiptImage = None, r_paymentVerifiedBy = None,
               r_paymentVerifiedAt = None, r_paymentNotes = [],
               r_requestedAt = 1, r_processedBy = None, r_processedAt = None, r_notes = []\<rparr>],
          nextId := nextId shop0 + 1\<rparr>)"
    by blast
  have a: "fst (allocate 2 (Oid 3) (Oid 1) (JNum (5 / 2)) None 9 fraction_db)
       = Inr (\<lparr>sa_id = 12, sa_dealer = 2, sa_salesman = 3, sa_product = 1, sa_strips = 5 / 2,
               sa_dealerStock = 11, sa_notes = [], sa_createdAt = 9\<rparr>, 5 / 2)"
    by (simp add: fraction_db_eval eval_defs)
  show ?thesis unfolding c using a by (simp add: shop0_def)
qed

end
